theory Spec2Isabelle
  imports Main "HOL-Library.Word" "HOL-Library.Sublist"
begin

section \<open>The crustls demo server (examples/crustlserver/main.c)\<close>

text \<open>
  The per-connection state machine of the demo server is embedded as pure functions over
  three pieces of state: the connection record \<open>conndata_t\<close> of the source, the operating
  system as the program sees it (errno, the socket, standard output, the allocator), and
  the TLS engine behind the \<open>rustls_connection\<close> handle. The system calls and the engine
  are not part of main.c; their outcomes are scripted inputs of the model.
\<close>

subsection \<open>Basic types\<close>

type_synonym byte = "8 word"
type_synonym size_t = "64 word"

datatype crustls_demo_result =
    CRUSTLS_DEMO_OK
  | CRUSTLS_DEMO_ERROR
  | CRUSTLS_DEMO_AGAIN
  | CRUSTLS_DEMO_EOF
  | CRUSTLS_DEMO_CLOSE_NOTIFY

datatype exchange_state = READING_REQUEST | SENT_RESPONSE

text \<open>
  Result codes of the engine (crustls.h is generated and not part of the sources): main.c
  distinguishes only success, the close-notify alert and everything else.
\<close>

datatype rustls_result =
    RUSTLS_RESULT_OK
  | RUSTLS_RESULT_ALERT_CLOSE_NOTIFY
  | RUSTLS_RESULT_OTHER nat

text \<open>
  The errno values main.c compares against come from the platform's errno.h. On Linux
  \<open>EWOULDBLOCK\<close> is defined as \<open>EAGAIN\<close> (11); under \<open>_WIN32\<close> main.c itself
  redefines both to the same value.
\<close>

definition EAGAIN :: int where "EAGAIN = 11"
definition EWOULDBLOCK :: int where "EWOULDBLOCK = 11"
definition EINVAL :: int where "EINVAL = 22"

subsection \<open>The operating system as seen by main.c\<close>

text \<open>
  One scripted outcome per call of read(2) and write(2). \<open>RdBytes bs\<close> are bytes that
  have arrived (\<open>RdBytes []\<close> is end of file); a call with a shorter buffer takes a prefix
  and leaves the rest for the next call. \<open>WrCount k\<close> accepts at most \<open>k\<close> bytes. A
  failing call returns -1 and sets errno; a successful call leaves errno as it was.
\<close>

datatype rd = RdBytes "byte list" | RdFail int
datatype wr = WrCount nat | WrFail int

record os =
  errno :: int
  sock_in :: "rd list"
  sock_out :: "wr list"
  sock_sent :: "byte list"
  stdout_wr :: "wr list"
  stdout_got :: "byte list"
  heap :: "bool list"
  closed :: "int list"

text \<open>
  read(fd, buf, len) on the connection's non-blocking socket. When nothing further is
  scripted, nothing has arrived: the call fails with \<open>EAGAIN\<close>.
\<close>

definition sock_read :: "os \<Rightarrow> nat \<Rightarrow> (int \<times> byte list) \<times> os" where
  "sock_read s len =
     (case sock_in s of
        [] \<Rightarrow> ((- 1, []), s\<lparr>errno := EAGAIN\<rparr>)
      | RdFail e # rest \<Rightarrow> ((- 1, []), s\<lparr>errno := e, sock_in := rest\<rparr>)
      | RdBytes bs # rest \<Rightarrow>
          ((int (length (take len bs)), take len bs),
           s\<lparr>sock_in := (if drop len bs = [] then rest else RdBytes (drop len bs) # rest)\<rparr>))"

text \<open>write(fd, buf, len) on the socket; with nothing scripted the kernel takes it all.\<close>

definition sock_write :: "os \<Rightarrow> byte list \<Rightarrow> int \<times> os" where
  "sock_write s buf =
     (case sock_out s of
        [] \<Rightarrow> (int (length buf), s\<lparr>sock_sent := sock_sent s @ buf\<rparr>)
      | WrFail e # rest \<Rightarrow> (- 1, s\<lparr>errno := e, sock_out := rest\<rparr>)
      | WrCount k # rest \<Rightarrow>
          (int (length (take k buf)),
           s\<lparr>sock_sent := sock_sent s @ take k buf, sock_out := rest\<rparr>))"

text \<open>write(STDOUT_FILENO, buf, n).\<close>

definition stdout_write :: "os \<Rightarrow> byte list \<Rightarrow> int \<times> os" where
  "stdout_write s buf =
     (case stdout_wr s of
        [] \<Rightarrow> (int (length buf), s\<lparr>stdout_got := stdout_got s @ buf\<rparr>)
      | WrFail e # rest \<Rightarrow> (- 1, s\<lparr>errno := e, stdout_wr := rest\<rparr>)
      | WrCount k # rest \<Rightarrow>
          (int (length (take k buf)),
           s\<lparr>stdout_got := stdout_got s @ take k buf, stdout_wr := rest\<rparr>))"

text \<open>
  realloc(p, size): the next entry of \<open>heap\<close> says whether the allocator succeeds (it
  does when nothing is scripted). The block keeps its contents up to the smaller of the
  two sizes; new bytes are shown as 0.
\<close>

definition resize :: "byte list \<Rightarrow> nat \<Rightarrow> byte list" where
  "resize mem k = take k mem @ replicate (k - length mem) 0"

definition realloc :: "os \<Rightarrow> byte list \<Rightarrow> nat \<Rightarrow> byte list option \<times> os" where
  "realloc s mem k =
     (case heap s of
        [] \<Rightarrow> (Some (resize mem k), s)
      | ok # rest \<Rightarrow> ((if ok then Some (resize mem k) else None), s\<lparr>heap := rest\<rparr>))"

text \<open>Storing \<open>bs\<close> at offset \<open>off\<close> of a block (memcpy into \<open>mem + off\<close>).\<close>

definition mem_write :: "byte list \<Rightarrow> nat \<Rightarrow> byte list \<Rightarrow> byte list" where
  "mem_write mem off bs = take off mem @ bs @ drop (off + length bs) mem"

subsection \<open>The TLS engine\<close>

text \<open>
  Modelled from the spec: the functions \<open>rustls_connection_*\<close> are implemented in the
  Rust part of the repository, which is not among the sources; main.c only calls them.
  The model follows section 4.2 of the specification. The cryptography is opaque, so what
  the engine finds in the bytes it has ingested is scripted: each call of
  \<open>process_new_packets\<close> takes the next entry of \<open>packets\<close>.
\<close>

datatype packet =
    Packet "byte list" "byte list" bool
  | Malformed nat

record rustls_connection =
  read_size :: nat
  tls_in :: "byte list"
  packets :: "packet list"
  plain :: "byte list"
  peer_closed :: bool
  tls_out :: "byte list"
  accepted :: "byte list list"
  room :: nat

text \<open>
  Modelled from the spec: \<open>wants_read\<close> and \<open>wants_write\<close> are advisory flags. The engine
  asks for more input while it holds no undrained plaintext and asks to write while it
  has encrypted bytes pending.
\<close>

definition rustls_connection_wants_read :: "rustls_connection \<Rightarrow> bool" where
  "rustls_connection_wants_read rc = (plain rc = [])"

definition rustls_connection_wants_write :: "rustls_connection \<Rightarrow> bool" where
  "rustls_connection_wants_write rc = (tls_out rc \<noteq> [])"

text \<open>
  Modelled from the spec: \<open>read_tls\<close> pulls raw bytes through the supplied raw-read
  callback (one call, for at most \<open>read_size\<close> bytes) and feeds them into the engine's
  record buffer; a failure of the callback is handed back as the result code. The second
  component of the result is the value stored through \<open>out_n\<close>.
\<close>

definition rustls_connection_read_tls ::
  "rustls_connection \<Rightarrow> (os \<Rightarrow> nat \<Rightarrow> (int \<times> byte list) \<times> os) \<Rightarrow> os
     \<Rightarrow> (int \<times> size_t) \<times> rustls_connection \<times> os" where
  "rustls_connection_read_tls rc cb s =
     (case cb s (read_size rc) of
        ((err, bs), s') \<Rightarrow>
          if err \<noteq> 0 then ((err, 0), rc, s')
          else ((0, of_nat (length bs)), rc\<lparr>tls_in := tls_in rc @ bs\<rparr>, s'))"

text \<open>
  Modelled from the spec: \<open>write_tls\<close> emits pending encrypted bytes through the supplied
  raw-write callback; 0 bytes with no error when there is nothing left to flush. A
  failure of the callback is handed back as the result code.
\<close>

definition rustls_connection_write_tls ::
  "rustls_connection \<Rightarrow> (os \<Rightarrow> byte list \<Rightarrow> (int \<times> nat) \<times> os) \<Rightarrow> os
     \<Rightarrow> (int \<times> size_t) \<times> rustls_connection \<times> os" where
  "rustls_connection_write_tls rc cb s =
     (if tls_out rc = [] then ((0, 0), rc, s)
      else case cb s (tls_out rc) of
        ((err, k), s') \<Rightarrow>
          if err \<noteq> 0 then ((err, 0), rc, s')
          else ((0, of_nat k), rc\<lparr>tls_out := drop k (tls_out rc)\<rparr>, s'))"

text \<open>
  Modelled from the spec: \<open>process_new_packets\<close> validates and decrypts what has been
  ingested. A \<open>Packet pl out cn\<close> yields plaintext \<open>pl\<close>, encrypted bytes \<open>out\<close> to send
  (handshake traffic) and says whether a close-notify alert was received; \<open>Malformed\<close>
  is a protocol failure. With nothing scripted, no complete record has arrived.
\<close>

definition rustls_connection_process_new_packets ::
  "rustls_connection \<Rightarrow> rustls_result \<times> rustls_connection" where
  "rustls_connection_process_new_packets rc =
     (case packets rc of
        [] \<Rightarrow> (RUSTLS_RESULT_OK, rc\<lparr>tls_in := []\<rparr>)
      | Malformed c # rest \<Rightarrow> (RUSTLS_RESULT_OTHER c, rc\<lparr>tls_in := [], packets := rest\<rparr>)
      | Packet pl out cn # rest \<Rightarrow>
          (RUSTLS_RESULT_OK,
           rc\<lparr>tls_in := [], packets := rest, plain := plain rc @ pl,
              tls_out := tls_out rc @ out, peer_closed := (peer_closed rc \<or> cn)\<rparr>))"

text \<open>
  Modelled from the spec: \<open>read_plaintext\<close> drains available decrypted bytes into a
  buffer of \<open>count\<close> bytes; 0 bytes means no more for now. As main.c expects, the
  close-notify alert is reported by this call once the plaintext before it is drained.
\<close>

definition rustls_connection_read ::
  "rustls_connection \<Rightarrow> size_t \<Rightarrow> (rustls_result \<times> byte list) \<times> rustls_connection" where
  "rustls_connection_read rc count =
     (if plain rc \<noteq> [] then
        ((RUSTLS_RESULT_OK, take (unat count) (plain rc)),
         rc\<lparr>plain := drop (unat count) (plain rc)\<rparr>)
      else if peer_closed rc then ((RUSTLS_RESULT_ALERT_CLOSE_NOTIFY, []), rc)
      else ((RUSTLS_RESULT_OK, []), rc))"

text \<open>
  Modelled from the spec: \<open>write_plaintext\<close> accepts application bytes for encryption
  and emission; it may accept fewer than offered (\<open>room\<close> is what the engine can still
  take). \<open>accepted\<close> logs what each call took in; the encryption is opaque and the
  pending output simply grows by the accepted bytes.
\<close>

definition rustls_connection_write ::
  "rustls_connection \<Rightarrow> byte list \<Rightarrow> size_t \<times> rustls_connection" where
  "rustls_connection_write rc buf =
     (let k = min (room rc) (length buf) in
      (of_nat k,
       rc\<lparr>accepted := accepted rc @ [take k buf], room := room rc - k,
          tls_out := tls_out rc @ take k buf\<rparr>))"

subsection \<open>The connection record and the callbacks\<close>

record conndata_t =
  fd :: int
  rconn :: rustls_connection
  data_from_client :: "byte list"
  data_len :: size_t
  data_capacity :: size_t

text \<open>
  \<open>read_cb\<close>: one read on the connection's socket; a negative result returns errno, and
  otherwise the count is stored through \<open>out_n\<close> and 0 is returned.
\<close>

definition read_cb :: "conndata_t \<Rightarrow> os \<Rightarrow> nat \<Rightarrow> (int \<times> byte list) \<times> os" where
  "read_cb conn s len =
     (case sock_read s len of
        ((n, bs), s') \<Rightarrow> if n < 0 then ((errno s', []), s') else ((0, bs), s'))"

definition write_cb :: "conndata_t \<Rightarrow> os \<Rightarrow> byte list \<Rightarrow> (int \<times> nat) \<times> os" where
  "write_cb conn s buf =
     (case sock_write s buf of
        (n, s') \<Rightarrow> if n < 0 then ((errno s', 0), s') else ((0, nat n), s'))"

subsection \<open>write_all\<close>

text \<open>
  The loop of \<open>write_all\<close> on standard output: every round writes the first \<open>n\<close> bytes
  of \<open>buf\<close> (the source does not advance \<open>buf\<close>) and subtracts what was written.
  Returns 0 for success and 1 for an error.
\<close>

function write_all :: "os \<Rightarrow> byte list \<Rightarrow> int \<Rightarrow> int \<times> os" where
  "write_all s buf n =
     (if n > 0 then
        (case stdout_write s (take (nat n) buf) of
           (m, s') \<Rightarrow>
             if m < 0 then (1, s')
             else if m = 0 then (1, s')
             else write_all s' buf (n - m))
      else (0, s))"
  by pat_completeness auto
termination
  by (relation "measure (\<lambda>(s, buf, n). nat n)") auto

declare write_all.simps [simp del]

text \<open>What every single write preserves, the loop preserves.\<close>

lemma write_all_invariant:
  assumes "write_all s buf n = (r, s')" and "P s"
    and step: "\<And>s b m s'. P s \<Longrightarrow> stdout_write s b = (m, s') \<Longrightarrow> P s'"
  shows "P s'"
  using assms(1,2)
proof (induction s buf n rule: write_all.induct)
  case (1 s buf n)
  show ?case
  proof (cases "n > 0")
    case False
    with "1.prems" show ?thesis by (simp add: write_all.simps [of s])
  next
    case True
    obtain m s1 where w: "stdout_write s (take (nat n) buf) = (m, s1)" by force
    have P1: "P s1" using step [OF "1.prems"(2) w] .
    show ?thesis
    proof (cases "m < 0 \<or> m = 0")
      case True
      with "1.prems" \<open>n > 0\<close> w P1 show ?thesis by (auto simp: write_all.simps [of s])
    next
      case False
      with "1.prems" \<open>n > 0\<close> w have "write_all s1 buf (n - m) = (r, s')"
        by (auto simp: write_all.simps [of s])
      with "1.IH" [OF \<open>n > 0\<close> w [symmetric]] False P1 show ?thesis by auto
    qed
  qed
qed


subsection \<open>copy_plaintext_to_buffer\<close>

text \<open>The conversion of a \<open>size_t\<close> argument to the \<open>int\<close> parameter of \<open>write_all\<close>.\<close>

definition int_of_size_t :: "size_t \<Rightarrow> int" where
  "int_of_size_t n = sint (ucast n :: 32 word)"

text \<open>
  One round of the \<open>for(;;)\<close> loop of \<open>copy_plaintext_to_buffer\<close>: \<open>Some r\<close> is
  \<open>return r\<close>, \<open>None\<close> goes round again. The engine stores the bytes it returns at
  \<open>data_from_client + data_len\<close>; \<open>n\<close> is their number.
\<close>

definition copy_step ::
  "conndata_t \<Rightarrow> os \<Rightarrow> crustls_demo_result option \<times> conndata_t \<times> os" where
  "copy_step conn s =
     (let off = unat (data_len conn);
          avail = data_capacity conn - data_len conn - 1
      in case rustls_connection_read (rconn conn) avail of
        ((result, bs), rc') \<Rightarrow>
          let n = (of_nat (length bs) :: size_t);
              conn1 = conn\<lparr>rconn := rc',
                           data_from_client := mem_write (data_from_client conn) off bs\<rparr>
          in if result = RUSTLS_RESULT_ALERT_CLOSE_NOTIFY
             then (Some CRUSTLS_DEMO_CLOSE_NOTIFY, conn1, s)
             else if result \<noteq> RUSTLS_RESULT_OK then (Some CRUSTLS_DEMO_ERROR, conn1, s)
             else if n = 0 then (Some CRUSTLS_DEMO_OK, conn1, s)
             else
               let conn2 = conn1\<lparr>data_len := data_len conn1 + n\<rparr>
               in case write_all s (drop off (data_from_client conn2)) (int_of_size_t n) of
                 (r, s') \<Rightarrow>
                   if r \<noteq> 0 then (Some CRUSTLS_DEMO_ERROR, conn2, s')
                   else (None, conn2, s'))"

lemma copy_step_drains:
  assumes "copy_step conn s = (None, c, s')"
  shows "length (plain (rconn c)) < length (plain (rconn conn))"
proof -
  obtain result bs rc' where
    rd: "rustls_connection_read (rconn conn) (data_capacity conn - data_len conn - 1)
           = ((result, bs), rc')"
    by (metis prod.exhaust)
  from assms rd have "rconn c = rc'" and "(of_nat (length bs) :: size_t) \<noteq> 0"
    by (auto simp: copy_step_def Let_def split: if_splits prod.splits)
  then have "bs \<noteq> []" by auto
  with rd have "length (plain rc') < length (plain (rconn conn))"
    by (auto simp: rustls_connection_read_def split: if_splits)
  with \<open>rconn c = rc'\<close> show ?thesis by simp
qed

function copy_loop :: "conndata_t \<Rightarrow> os \<Rightarrow> crustls_demo_result \<times> conndata_t \<times> os" where
  "copy_loop conn s =
     (case copy_step conn s of
        (Some r, c, s') \<Rightarrow> (r, c, s')
      | (None, c, s') \<Rightarrow> copy_loop c s')"
  by pat_completeness auto
termination
  by (relation "measure (\<lambda>(conn, s). length (plain (rconn conn)))")
     (auto dest: copy_step_drains [OF sym])

declare copy_loop.simps [simp del]

lemma copy_loop_invariant:
  assumes "copy_loop conn s = (r, c, s')" and "P conn s"
    and step: "\<And>conn s x c s'. P conn s \<Longrightarrow> copy_step conn s = (x, c, s') \<Longrightarrow> P c s'"
  shows "P c s'"
  using assms(1,2)
proof (induction conn s rule: copy_loop.induct)
  case (1 conn s)
  obtain x c1 s1 where st: "copy_step conn s = (x, c1, s1)" by (metis prod.exhaust)
  have P1: "P c1 s1" using step [OF "1.prems"(2) st] .
  show ?case
  proof (cases x)
    case None
    with "1.prems" st have "copy_loop c1 s1 = (r, c, s')" by (simp add: copy_loop.simps [of conn])
    with "1.IH" [OF st [symmetric] None refl] P1 show ?thesis by auto
  next
    case (Some a)
    with "1.prems" st P1 show ?thesis by (simp add: copy_loop.simps [of conn])
  qed
qed



text \<open>
  \<open>copy_plaintext_to_buffer\<close>. \<open>None\<close> is the call of abort() when realloc fails.
  The block is reallocated to twice \<open>data_capacity\<close>; the field \<open>data_capacity\<close> itself is
  not assigned anywhere in the function.
\<close>

definition copy_plaintext_to_buffer ::
  "conndata_t \<Rightarrow> os \<Rightarrow> crustls_demo_result option \<times> conndata_t \<times> os" where
  "copy_plaintext_to_buffer conn s =
     (if data_capacity conn - data_len conn < 1024 then
        (case realloc s (data_from_client conn) (unat (data_capacity conn * 2)) of
           (None, s') \<Rightarrow> (None, conn, s')
         | (Some mem, s') \<Rightarrow>
             (case copy_loop (conn\<lparr>data_from_client := mem\<rparr>) s' of
                (r, c, s'') \<Rightarrow> (Some r, c, s'')))
      else (case copy_loop conn s of (r, c, s') \<Rightarrow> (Some r, c, s')))"

subsection \<open>do_read\<close>

text \<open>\<open>None\<close> is an abort() inside \<open>copy_plaintext_to_buffer\<close>.\<close>

definition do_read :: "conndata_t \<Rightarrow> os \<Rightarrow> crustls_demo_result option \<times> conndata_t \<times> os" where
  "do_read conn s =
     (case rustls_connection_read_tls (rconn conn) (read_cb conn) s of
        ((err, n), rc1, s1) \<Rightarrow>
          let conn1 = conn\<lparr>rconn := rc1\<rparr> in
          if err = EAGAIN \<or> err = EWOULDBLOCK then (Some CRUSTLS_DEMO_AGAIN, conn1, s1)
          else if err \<noteq> 0 then (Some CRUSTLS_DEMO_ERROR, conn1, s1)
          else if n = 0 then (Some CRUSTLS_DEMO_EOF, conn1, s1)
          else
            (case rustls_connection_process_new_packets rc1 of
               (result, rc2) \<Rightarrow>
                 let conn2 = conn\<lparr>rconn := rc2\<rparr> in
                 if result \<noteq> RUSTLS_RESULT_OK then (Some CRUSTLS_DEMO_ERROR, conn2, s1)
                 else
                   (case copy_plaintext_to_buffer conn2 s1 of
                      (None, conn3, s3) \<Rightarrow> (None, conn3, s3)
                    | (Some result, conn3, s3) \<Rightarrow>
                        if result \<noteq> CRUSTLS_DEMO_CLOSE_NOTIFY then (Some result, conn3, s3)
                        else
                          (case sock_read s3 2048 of
                             ((m, bs), s4) \<Rightarrow>
                               let n = (word_of_int m :: size_t) in
                               if n \<noteq> 0 \<and> errno s4 \<noteq> EWOULDBLOCK
                               then (Some CRUSTLS_DEMO_ERROR, conn3, s4)
                               else (Some CRUSTLS_DEMO_CLOSE_NOTIFY, conn3, s4)))))"

subsection \<open>request_is_finished and send_response\<close>

text \<open>
  \<open>strstr\<close> works on C strings: the haystack is the bytes of the block before its first
  NUL byte. The result is the offset of the first occurrence (\<open>None\<close> for NULL).
\<close>

definition c_string :: "byte list \<Rightarrow> byte list" where
  "c_string mem = takeWhile (\<lambda>b. b \<noteq> 0) mem"

fun find_first :: "byte list \<Rightarrow> byte list \<Rightarrow> nat option" where
  "find_first needle [] = (if needle = [] then Some 0 else None)"
| "find_first needle (h # hs) =
     (if prefix needle (h # hs) then Some 0 else map_option Suc (find_first needle hs))"

definition strstr :: "byte list \<Rightarrow> byte list \<Rightarrow> nat option" where
  "strstr mem needle = find_first needle (c_string mem)"

definition bytes :: "string \<Rightarrow> byte list" where
  "bytes cs = map of_char cs"

definition CRLFCRLF :: "byte list" where
  "CRLFCRLF = [13, 10, 13, 10]"

definition request_is_finished :: "conndata_t \<Rightarrow> bool \<times> conndata_t" where
  "request_is_finished conn =
     (let mem = (data_from_client conn)[unat (data_len conn) := 0]
      in (strstr mem CRLFCRLF \<noteq> None, conn\<lparr>data_from_client := mem\<rparr>))"

definition response :: "byte list" where
  "response = bytes ''HTTP/1.1 200 OK'' @ [13, 10] @ bytes ''Content-Length: 6''
              @ [13, 10, 13, 10] @ bytes ''hello'' @ [10]"

text \<open>
  \<open>send_response\<close>: the flag is False when the engine took fewer bytes than offered and
  the function calls abort().
\<close>

definition send_response :: "conndata_t \<Rightarrow> bool \<times> conndata_t" where
  "send_response conn =
     (case rustls_connection_write (rconn conn) response of
        (n, rc') \<Rightarrow> (n = of_nat (length response), conn\<lparr>rconn := rc'\<rparr>))"

subsection \<open>handle_conn\<close>

text \<open>
  The inner loop of \<open>handle_conn\<close> calls \<open>do_read\<close> until it returns something other
  than \<open>CRUSTLS_DEMO_OK\<close>. Every successful round takes bytes off the socket, so the
  loop ends when the scripted input does; \<open>rd_weight\<close> measures what is left.
\<close>

fun rd_weight :: "rd list \<Rightarrow> nat" where
  "rd_weight [] = 0"
| "rd_weight (RdBytes bs # rest) = Suc (length bs + rd_weight rest)"
| "rd_weight (RdFail e # rest) = Suc (rd_weight rest)"

lemma stdout_write_sock_in: "stdout_write s buf = (m, s') \<Longrightarrow> sock_in s' = sock_in s"
  by (auto simp: stdout_write_def split: list.splits wr.splits)

lemma write_all_sock_in:
  assumes "write_all s buf n = (r, s')" shows "sock_in s' = sock_in s"
  by (rule write_all_invariant [OF assms, where P = "\<lambda>t. sock_in t = sock_in s"])
     (simp_all add: stdout_write_sock_in)

lemma copy_step_sock_in: "copy_step conn s = (x, c, s') \<Longrightarrow> sock_in s' = sock_in s"
  by (auto simp: copy_step_def Let_def split: prod.splits if_splits dest: write_all_sock_in)

lemma copy_loop_sock_in:
  assumes "copy_loop conn s = (r, c, s')" shows "sock_in s' = sock_in s"
  by (rule copy_loop_invariant [OF assms, where P = "\<lambda>c t. sock_in t = sock_in s"])
     (simp_all add: copy_step_sock_in)

lemma copy_plaintext_to_buffer_sock_in:
  "copy_plaintext_to_buffer conn s = (r, c, s') \<Longrightarrow> sock_in s' = sock_in s"
  by (auto simp: copy_plaintext_to_buffer_def realloc_def
           split: if_splits prod.splits option.splits list.splits dest: copy_loop_sock_in)

lemma sock_read_weight:
  "sock_read s len = ((m, bs), s') \<Longrightarrow> rd_weight (sock_in s') \<le> rd_weight (sock_in s)"
  by (auto simp: sock_read_def split: list.splits rd.splits if_splits)

lemma sock_read_weight_less:
  "sock_read s len = ((m, bs), s') \<Longrightarrow> bs \<noteq> []
     \<Longrightarrow> rd_weight (sock_in s') < rd_weight (sock_in s)"
  by (auto simp: sock_read_def split: list.splits rd.splits if_splits)

lemma do_read_weight:
  assumes "do_read conn s = (Some CRUSTLS_DEMO_OK, c, s')"
  shows "rd_weight (sock_in s') < rd_weight (sock_in s)"
proof -
  obtain m bs s1 where sr: "sock_read s (read_size (rconn conn)) = ((m, bs), s1)"
    by (metis prod.exhaust)
  have bs: "bs \<noteq> []" and s1: "sock_in s' = sock_in s1"
    using assms sr
    by (auto simp: do_read_def rustls_connection_read_tls_def read_cb_def Let_def
                   EAGAIN_def EWOULDBLOCK_def
             split: prod.splits if_splits option.splits
             dest!: copy_plaintext_to_buffer_sock_in)
  from sock_read_weight_less [OF sr bs] s1 show ?thesis by simp
qed


text \<open>
  How a piece of the loop body of \<open>handle_conn\<close> ends: \<open>Continue\<close> goes on with the
  body, \<open>Cleanup ret\<close> is \<open>goto cleanup\<close> with the current value of the local \<open>ret\<close>,
  \<open>Abort\<close> is a call of abort().
\<close>

datatype ctl = Continue | Cleanup int | Abort

function read_loop :: "conndata_t \<Rightarrow> os \<Rightarrow> ctl \<times> conndata_t \<times> os" where
  "read_loop conn s =
     (case do_read conn s of
        (None, c, s') \<Rightarrow> (Abort, c, s')
      | (Some result, c, s') \<Rightarrow>
          if result = CRUSTLS_DEMO_AGAIN then (Continue, c, s')
          else if result = CRUSTLS_DEMO_CLOSE_NOTIFY then (Cleanup 0, c, s')
          else if result \<noteq> CRUSTLS_DEMO_OK then (Cleanup 1, c, s')
          else read_loop c s')"
  by pat_completeness auto
termination
  by (relation "measure (\<lambda>(conn, s). rd_weight (sock_in s))")
     (auto dest: do_read_weight [OF sym])

declare read_loop.simps [simp del]

text \<open>
  The block under \<open>if(FD_ISSET(sockfd, &read_fds))\<close>: the read loop when the socket is
  in the read set after select.
\<close>

definition read_phase :: "bool \<Rightarrow> conndata_t \<Rightarrow> os \<Rightarrow> ctl \<times> conndata_t \<times> os" where
  "read_phase in_read_set conn s =
     (if in_read_set then read_loop conn s else (Continue, conn, s))"

text \<open>The write step of the loop body: \<open>write_tls\<close> once.\<close>

definition write_step :: "conndata_t \<Rightarrow> os \<Rightarrow> ctl \<times> conndata_t \<times> os" where
  "write_step conn s =
     (case rustls_connection_write_tls (rconn conn) (write_cb conn) s of
        ((err, n), rc', s') \<Rightarrow>
          if err \<noteq> 0 then (Cleanup 1, conn\<lparr>rconn := rc'\<rparr>, s')
          else if n = 0 then (Cleanup 1, conn\<lparr>rconn := rc'\<rparr>, s')
          else (Continue, conn\<lparr>rconn := rc'\<rparr>, s'))"

text \<open>The block under \<open>if(FD_ISSET(sockfd, &write_fds))\<close>.\<close>

definition write_phase :: "bool \<Rightarrow> conndata_t \<Rightarrow> os \<Rightarrow> ctl \<times> conndata_t \<times> os" where
  "write_phase in_write_set conn s =
     (if in_write_set then write_step conn s else (Continue, conn, s))"

text \<open>
  The last statement of the loop body. \<open>request_is_finished\<close> is only called while the
  state is \<open>READING_REQUEST\<close>.
\<close>

definition reply_step ::
  "exchange_state \<Rightarrow> conndata_t \<Rightarrow> ctl \<times> exchange_state \<times> conndata_t" where
  "reply_step state conn =
     (if state = READING_REQUEST then
        (case request_is_finished conn of
           (finished, c) \<Rightarrow>
             if finished then
               (case send_response c of
                  (ok, c') \<Rightarrow> ((if ok then Continue else Abort), SENT_RESPONSE, c'))
             else (Continue, state, c))
      else (Continue, state, conn))"

text \<open>
  What select() reports for the connection's socket: failure (-1, with errno), or whether
  the socket is readable and writable. Only the descriptors put into a set beforehand can
  remain in it. When neither remains, select has returned 0 and the source sleeps; the
  requested \<open>tv_nsec\<close> of 1000000000 is out of range, so that nanosleep fails with
  \<open>EINVAL\<close>.
\<close>

datatype select_outcome = SelectFail int | SelectReady bool bool

text \<open>One round of the outer loop of \<open>handle_conn\<close>.\<close>

definition handle_iter ::
  "select_outcome \<Rightarrow> exchange_state \<Rightarrow> conndata_t \<Rightarrow> os
     \<Rightarrow> ctl \<times> exchange_state \<times> conndata_t \<times> os" where
  "handle_iter sel state conn s =
     (let want_read = rustls_connection_wants_read (rconn conn);
          want_write = rustls_connection_wants_write (rconn conn)
      in case sel of
        SelectFail e \<Rightarrow> (Cleanup 1, state, conn, s\<lparr>errno := e\<rparr>)
      | SelectReady r w \<Rightarrow>
          let read_set = (want_read \<and> r);
              write_set = (want_write \<and> w);
              s0 = (if \<not> read_set \<and> \<not> write_set then s\<lparr>errno := EINVAL\<rparr> else s)
          in case read_phase read_set conn s0 of
               (Continue, c1, s1) \<Rightarrow>
                 (case write_phase write_set c1 s1 of
                    (Continue, c2, s2) \<Rightarrow>
                      (case reply_step state c2 of (x, state', c3) \<Rightarrow> (x, state', c3, s2))
                  | (x, c2, s2) \<Rightarrow> (x, state, c2, s2))
             | (x, c1, s1) \<Rightarrow> (x, state, c1, s1))"

text \<open>
  The outer \<open>for(;;)\<close> loop, one round per return of select. When the script of select
  outcomes is used up the connection is blocked in select: the result is \<open>Continue\<close>.
\<close>

fun handle_conn_loop ::
  "select_outcome list \<Rightarrow> exchange_state \<Rightarrow> conndata_t \<Rightarrow> os
     \<Rightarrow> ctl \<times> exchange_state \<times> conndata_t \<times> os" where
  "handle_conn_loop [] state conn s = (Continue, state, conn, s)"
| "handle_conn_loop (sel # sels) state conn s =
     (case handle_iter sel state conn s of
        (Continue, state', c, s') \<Rightarrow> handle_conn_loop sels state' c s'
      | (x, state', c, s') \<Rightarrow> (x, state', c, s'))"

text \<open>
  \<open>handle_conn\<close>: the loop, then the code at \<open>cleanup\<close>, which closes the socket when its
  descriptor is positive. Nothing else is released there.
\<close>

definition handle_conn ::
  "select_outcome list \<Rightarrow> conndata_t \<Rightarrow> os \<Rightarrow> ctl \<times> exchange_state \<times> conndata_t \<times> os" where
  "handle_conn sels conn s =
     (let sockfd = fd conn in
      case handle_conn_loop sels READING_REQUEST conn s of
        (Cleanup ret, state, c, s') \<Rightarrow>
          (Cleanup ret, state, c,
           (if sockfd > 0 then s'\<lparr>closed := closed s' @ [sockfd]\<rparr> else s'))
      | (x, state, c, s') \<Rightarrow> (x, state, c, s'))"

text \<open>
  The connection record as \<open>main\<close> sets it up after accept: a zeroed block of 2048 bytes
  with \<open>data_capacity = 2048\<close> and \<open>data_len = 0\<close>.
\<close>

definition new_conn :: "int \<Rightarrow> rustls_connection \<Rightarrow> conndata_t" where
  "new_conn clientfd rc =
     \<lparr>fd = clientfd, rconn = rc, data_from_client = replicate 2048 0,
      data_len = 0, data_capacity = 2048\<rparr>"

subsection \<open>The accept loop of main\<close>

text \<open>
  What \<open>main\<close> holds for its connections: the sockets returned by accept, the engines
  made by \<open>rustls_server_connection_new\<close>, and the accumulators (the \<open>conndata_t\<close> and
  its block of 2048 bytes, allocated together). Engines and accumulators are numbered in
  the order of their creation. \<open>rconn_var\<close> is the local \<open>rconn\<close> (\<open>None\<close> for NULL) and
  \<open>ret_var\<close> the local \<open>ret\<close>.
\<close>

datatype resource = Socket int | Engine nat | Accumulator nat

record server =
  live :: "resource list"
  rconn_var :: "nat option"
  made :: nat
  ret_var :: int

text \<open>
  One return of accept and what follows it: the descriptor (negative for failure), the
  result and the engine of \<open>rustls_server_connection_new\<close>, the result of
  \<open>pthread_create\<close>, and the select outcomes and environment the connection will see.
\<close>

record arrival =
  accept_result :: int
  new_result :: rustls_result
  new_engine :: rustls_connection
  thread_result :: int
  selects :: "select_outcome list"
  environment :: os

text \<open>
  How \<open>main\<close> ends: it returns a value, or it is still waiting (in accept, or in
  \<open>pthread_join\<close> for a handler that is blocked in select), or the process has aborted.
\<close>

datatype main_end = Exit int | Waiting | Crashed

definition main_start :: server where
  "main_start = \<lparr>live = [], rconn_var = None, made = 0, ret_var = 1\<rparr>"

text \<open>
  The code at \<open>cleanup\<close> in \<open>main\<close> frees the server configuration (not tracked here)
  and the engine that \<open>rconn\<close> points to.
\<close>

definition main_cleanup :: "server \<Rightarrow> server" where
  "main_cleanup srv =
     (case rconn_var srv of
        None \<Rightarrow> srv
      | Some k \<Rightarrow> srv\<lparr>live := remove1 (Engine k) (live srv)\<rparr>)"

text \<open>
  The \<open>while(true)\<close> loop of \<open>main\<close>; \<open>pthread_join\<close> follows \<open>pthread_create\<close> at
  once, so the handler runs to its end before the next accept. A socket leaves \<open>live\<close>
  when the handler has closed it. Nothing in the loop frees an engine or an accumulator.
\<close>

fun main_loop :: "arrival list \<Rightarrow> server \<Rightarrow> main_end \<times> server" where
  "main_loop [] srv = (Waiting, srv)"
| "main_loop (a # arrivals) srv =
     (let clientfd = accept_result a in
      if clientfd < 0 then (Exit (ret_var srv), main_cleanup srv)
      else
        let srv1 = srv\<lparr>live := Socket clientfd # live srv\<rparr> in
        if new_result a \<noteq> RUSTLS_RESULT_OK then (Exit (ret_var srv1), main_cleanup srv1)
        else
          let k = made srv1;
              srv2 = srv1\<lparr>live := Accumulator k # Engine k # live srv1,
                          rconn_var := Some k, made := Suc k, ret_var := thread_result a\<rparr>
          in if thread_result a \<noteq> 0 then (Exit (ret_var srv2), main_cleanup srv2)
             else
               (case handle_conn (selects a) (new_conn clientfd (new_engine a)) (environment a) of
                  (Continue, st, c, s') \<Rightarrow> (Waiting, srv2)
                | (Abort, st, c, s') \<Rightarrow> (Crashed, srv2)
                | (Cleanup r, st, c, s') \<Rightarrow>
                    main_loop arrivals
                      (if clientfd \<in> set (closed s')
                       then srv2\<lparr>live := remove1 (Socket clientfd) (live srv2)\<rparr>
                       else srv2)))"

section \<open>Invariant and frame conditions\<close>

text \<open>
  The bounds on the accumulator that hold for a connection set up by \<open>main\<close>: the
  tracked capacity is 2048, \<open>data_len\<close> is below it, and the block is at least as large.
\<close>

definition conn_ok :: "conndata_t \<Rightarrow> bool" where
  "conn_ok c \<longleftrightarrow> data_capacity c = 2048 \<and> data_len c < data_capacity c
                \<and> unat (data_capacity c) \<le> length (data_from_client c)"

text \<open>
  What the read and write steps leave alone: the descriptor, the tracked capacity, the
  log of plaintext handed to the engine, and the set of closed descriptors.
\<close>

definition keeps :: "conndata_t \<Rightarrow> os \<Rightarrow> conndata_t \<Rightarrow> os \<Rightarrow> bool" where
  "keeps conn s c s' \<longleftrightarrow>
     fd c = fd conn \<and> data_capacity c = data_capacity conn
     \<and> accepted (rconn c) = accepted (rconn conn)
     \<and> closed s' = closed s
     \<and> (conn_ok conn \<longrightarrow> conn_ok c)"

text \<open>
  What a round of the loop may do in addition: move from \<open>READING_REQUEST\<close> to
  \<open>SENT_RESPONSE\<close>, handing the engine one (possibly shortened) copy of the reply.
\<close>

definition progress ::
  "exchange_state \<Rightarrow> conndata_t \<Rightarrow> os \<Rightarrow> exchange_state \<Rightarrow> conndata_t \<Rightarrow> os \<Rightarrow> bool" where
  "progress st conn s st' c s' \<longleftrightarrow>
     fd c = fd conn \<and> data_capacity c = data_capacity conn \<and> closed s' = closed s
     \<and> (conn_ok conn \<longrightarrow> conn_ok c)
     \<and> ((st' = st \<and> accepted (rconn c) = accepted (rconn conn))
        \<or> (st = READING_REQUEST \<and> st' = SENT_RESPONSE
           \<and> (\<exists>w. accepted (rconn c) = accepted (rconn conn) @ [w] \<and> prefix w response)))"

text \<open>
  The output sink. A scripted write on standard output is accepting when it takes at least
  one byte; the sink is good when every scripted write is. \<open>frame\<close> is the environment
  without the sink: two environments with the same frame differ in the sink only.
\<close>

fun accepting :: "wr \<Rightarrow> bool" where
  "accepting (WrCount k) = (0 < k)"
| "accepting (WrFail e) = False"

definition sink_good :: "os \<Rightarrow> bool" where
  "sink_good s = list_all accepting (stdout_wr s)"

definition frame :: "os \<Rightarrow> os" where
  "frame s = s\<lparr>stdout_wr := [], stdout_got := []\<rparr>"

text \<open>
  What a run did to its sink, read off the script before (\<open>t\<close>) and after (\<open>t'\<close>):
  \<open>fed\<close> when every scripted write it performed was accepting, \<open>choked\<close> when the last
  write it performed was not, all those before it being accepting.
\<close>

definition fed :: "os \<Rightarrow> os \<Rightarrow> bool" where
  "fed t t' \<longleftrightarrow> (\<exists>cs. stdout_wr t = cs @ stdout_wr t' \<and> list_all accepting cs)"

definition choked :: "os \<Rightarrow> os \<Rightarrow> bool" where
  "choked t t' \<longleftrightarrow>
     (\<exists>cs w. stdout_wr t = cs @ w # stdout_wr t' \<and> list_all accepting cs \<and> \<not> accepting w)"

text \<open>
  Two runs side by side, the first with a good sink: \<open>twin\<close> relates their environments,
  and \<open>follows\<close> says in addition that the second run, started in \<open>t\<close>, has performed
  accepting writes only.
\<close>

definition twin :: "os \<Rightarrow> os \<Rightarrow> bool" where
  "twin s t \<longleftrightarrow> sink_good s \<and> frame t = frame s"

definition follows :: "os \<Rightarrow> os \<Rightarrow> os \<Rightarrow> bool" where
  "follows t s' t' \<longleftrightarrow> twin s' t' \<and> fed t t'"

text \<open>
  The plaintext of a connection in the order in which the peer sent it: what has been
  accumulated in the buffer, then what the engine holds decrypted, then what it has still
  to decrypt. \<open>steady\<close> relates a connection within the bounds of \<open>conn_ok\<close> to a later
  one that is within them too and has the same plaintext.
\<close>

definition accumulated :: "conndata_t \<Rightarrow> byte list" where
  "accumulated c = take (unat (data_len c)) (data_from_client c)"

fun payload :: "packet \<Rightarrow> byte list" where
  "payload (Packet pl out cn) = pl"
| "payload (Malformed k) = []"

definition stream :: "conndata_t \<Rightarrow> byte list" where
  "stream c = accumulated c @ plain (rconn c) @ concat (map payload (packets (rconn c)))"

definition steady :: "conndata_t \<Rightarrow> conndata_t \<Rightarrow> bool" where
  "steady conn c \<longleftrightarrow> (conn_ok conn \<longrightarrow> conn_ok c \<and> stream c = stream conn)"


text \<open>
  The first \<open>k\<close> rounds of the read loop, when each of them returns \<open>CRUSTLS_DEMO_OK\<close>:
  the connection and the environment the loop has then reached.
\<close>

fun read_rounds :: "nat \<Rightarrow> conndata_t \<Rightarrow> os \<Rightarrow> (conndata_t \<times> os) option" where
  "read_rounds 0 conn s = Some (conn, s)"
| "read_rounds (Suc k) conn s =
     (case do_read conn s of
        (r, c, s') \<Rightarrow> if r = Some CRUSTLS_DEMO_OK then read_rounds k c s' else None)"

text \<open>
  A connection has been served when it was accepted on a positive descriptor, its engine
  and thread were created, and its handler ended at cleanup.
\<close>

fun is_cleanup :: "ctl \<Rightarrow> bool" where
  "is_cleanup (Cleanup r) = True"
| "is_cleanup x = False"

definition served :: "arrival \<Rightarrow> bool" where
  "served a \<longleftrightarrow>
     0 < accept_result a \<and> new_result a = RUSTLS_RESULT_OK \<and> thread_result a = 0
     \<and> is_cleanup (fst (handle_conn (selects a) (new_conn (accept_result a) (new_engine a))
                          (environment a)))"

section \<open>Scenarios\<close>

text \<open>Concrete connections and environments used to run the model.\<close>

definition idle_engine :: rustls_connection where
  "idle_engine = \<lparr>read_size = 4096, tls_in = [], packets = [], plain = [],
                  peer_closed = False, tls_out = [], accepted = [], room = 65536\<rparr>"

text \<open>A buffer holding a NUL byte followed by the terminator pattern.\<close>

definition nul_request :: conndata_t where
  "nul_request = (new_conn 4 idle_engine)
     \<lparr>data_from_client := [0, 13, 10, 13, 10] @ replicate 2043 0, data_len := 5\<rparr>"

text \<open>A buffer holding \<open>GET /\<close> and the terminator pattern.\<close>

definition get_request :: conndata_t where
  "get_request = (new_conn 4 idle_engine)
     \<lparr>data_from_client := [71, 69, 84, 32, 47, 13, 10, 13, 10] @ replicate 2039 0,
      data_len := 9\<rparr>"

text \<open>An environment in which nothing is scripted.\<close>

definition quiet_os :: os where
  "quiet_os = \<lparr>errno = 0, sock_in = [], sock_out = [], sock_sent = [], stdout_wr = [],
               stdout_got = [], heap = [], closed = []\<rparr>"

text \<open>
  The request of the specification's scenario, arriving twice: the first copy in one
  record, then a read that would block, then a second copy in another record.
\<close>

definition get_bytes :: "byte list" where
  "get_bytes = bytes ''GET / HTTP/1.1'' @ [13, 10] @ bytes ''Host: x'' @ [13, 10, 13, 10]"

definition two_requests_engine :: rustls_connection where
  "two_requests_engine =
     idle_engine\<lparr>packets := [Packet get_bytes [] False, Packet get_bytes [] False]\<rparr>"

definition two_requests_os :: os where
  "two_requests_os = quiet_os\<lparr>sock_in := [RdBytes [23, 3, 3], RdFail EAGAIN, RdBytes [23, 3, 3]]\<rparr>"

definition two_rounds :: "select_outcome list" where
  "two_rounds = [SelectReady True False, SelectReady True True]"

text \<open>An engine with encrypted bytes pending, and sockets that do not take them.\<close>

definition pending_engine :: rustls_connection where
  "pending_engine = idle_engine\<lparr>tls_out := [22, 3, 3]\<rparr>"

definition zero_write_os :: os where
  "zero_write_os = quiet_os\<lparr>sock_out := [WrCount 0]\<rparr>"

definition blocked_write_os :: os where
  "blocked_write_os = quiet_os\<lparr>sock_out := [WrFail EAGAIN]\<rparr>"

text \<open>
  A peer that sends two bytes of plaintext, then (after a read that would block) a record
  carrying close-notify, and five more raw bytes after it. The second pair is the same
  peer without the earlier would-block.
\<close>

definition closing_engine :: rustls_connection where
  "closing_engine = idle_engine\<lparr>packets := [Packet [104, 105] [] False, Packet [] [] True]\<rparr>"

definition trailing_os :: os where
  "trailing_os = quiet_os\<lparr>sock_in :=
     [RdBytes [23, 3, 3], RdFail EAGAIN, RdBytes [21, 3, 3], RdBytes [1, 2, 3, 4, 5]]\<rparr>"

definition closing_at_once_engine :: rustls_connection where
  "closing_at_once_engine = idle_engine\<lparr>packets := [Packet [] [] True]\<rparr>"

definition trailing_at_once_os :: os where
  "trailing_at_once_os = quiet_os\<lparr>sock_in := [RdBytes [21, 3, 3], RdBytes [1, 2, 3, 4, 5]]\<rparr>"

text \<open>
  A peer that sends 1025 bytes of plaintext and then two single bytes, each in a record
  of its own; and a peer that sends 2048 bytes in one record and one more byte.
\<close>

definition growing_engine :: rustls_connection where
  "growing_engine = idle_engine\<lparr>packets :=
     [Packet (replicate 1025 97) [] False, Packet [98] [] False, Packet [99] [] False]\<rparr>"

definition three_records_os :: os where
  "three_records_os = quiet_os\<lparr>sock_in := [RdBytes [23], RdBytes [23], RdBytes [23]]\<rparr>"

definition big_engine :: rustls_connection where
  "big_engine = idle_engine\<lparr>packets :=
     [Packet (replicate 2048 97) [] False, Packet [98] [] False]\<rparr>"

definition two_records_os :: os where
  "two_records_os = quiet_os\<lparr>sock_in := [RdBytes [23], RdBytes [23]]\<rparr>"

text \<open>
  A peer that sends the two bytes \<open>hi\<close>; \<open>EIO\<close> is the errno of a failed write on
  standard output.
\<close>

definition EIO :: int where "EIO = 5"

definition hi_engine :: rustls_connection where
  "hi_engine = idle_engine\<lparr>packets := [Packet [104, 105] [] False]\<rparr>"

definition hi_os :: os where
  "hi_os = quiet_os\<lparr>sock_in := [RdBytes [23, 3, 3]]\<rparr>"

text \<open>
  Connections that end in the three ways the loop can end: the peer sends close-notify and
  closes, the peer closes without it, the peer sends a malformed record. And an accept
  that fails.
\<close>

definition eof_arrival :: arrival where
  "eof_arrival = \<lparr>accept_result = 4, new_result = RUSTLS_RESULT_OK, new_engine = idle_engine,
                   thread_result = 0, selects = [SelectReady True False],
                   environment = quiet_os\<lparr>sock_in := [RdBytes []]\<rparr>\<rparr>"

definition failing_arrival :: arrival where
  "failing_arrival = \<lparr>accept_result = 4, new_result = RUSTLS_RESULT_OK,
                       new_engine = idle_engine\<lparr>packets := [Malformed 7]\<rparr>,
                       thread_result = 0, selects = [SelectReady True False],
                       environment = quiet_os\<lparr>sock_in := [RdBytes [23, 3, 3]]\<rparr>\<rparr>"

definition close_notify_arrival :: arrival where
  "close_notify_arrival =
     \<lparr>accept_result = 4, new_result = RUSTLS_RESULT_OK, new_engine = closing_at_once_engine,
      thread_result = 0, selects = [SelectReady True False],
      environment = quiet_os\<lparr>sock_in := [RdBytes [21, 3, 3], RdBytes []]\<rparr>\<rparr>"

definition refused_arrival :: arrival where
  "refused_arrival = eof_arrival\<lparr>accept_result := - 1\<rparr>"

text \<open>An environment in which the write on the socket fails with \<open>EIO\<close>.\<close>

definition broken_write_os :: os where
  "broken_write_os = quiet_os\<lparr>sock_out := [WrFail EIO]\<rparr>"

section \<open>Properties\<close>

subsection \<open>Every step keeps the frame\<close>

lemma keeps_refl: "keeps conn s conn s"
  by (simp add: keeps_def)

lemma keeps_trans: "keeps a s b t \<Longrightarrow> keeps b t c u \<Longrightarrow> keeps a s c u"
  by (simp add: keeps_def)

lemma unat_avail:
  fixes len :: size_t
  assumes "len < 2048"
  shows "unat (2048 - len - 1) = 2047 - unat len"
  using assms by unat_arith

lemma unat_len_add:
  fixes len :: size_t
  assumes "len < 2048" "k \<le> 2047 - unat len"
  shows "unat (len + of_nat k) = unat len + k"
proof -
  from assms have "unat len < 2048" by unat_arith
  with assms have "unat len + k < 2^64" by simp
  then show ?thesis by (simp add: unat_word_ariths unat_of_nat)
qed

lemma rustls_connection_read_bound:
  "rustls_connection_read rc count = ((res, bs), rc') \<Longrightarrow> length bs \<le> unat count"
  by (auto simp: rustls_connection_read_def split: if_splits)

lemma rustls_connection_read_accepted:
  "rustls_connection_read rc count = ((res, bs), rc') \<Longrightarrow> accepted rc' = accepted rc"
  by (auto simp: rustls_connection_read_def split: if_splits)

lemma stdout_write_closed: "stdout_write s buf = (m, s') \<Longrightarrow> closed s' = closed s"
  by (auto simp: stdout_write_def split: list.splits wr.splits)

lemma write_all_closed:
  assumes "write_all s buf n = (r, s')" shows "closed s' = closed s"
  by (rule write_all_invariant [OF assms, where P = "\<lambda>t. closed t = closed s"])
     (simp_all add: stdout_write_closed)

lemma length_mem_write:
  "off + length bs \<le> length mem \<Longrightarrow> length (mem_write mem off bs) = length mem"
  by (simp add: mem_write_def)

lemma copy_step_ok:
  assumes st: "copy_step conn s = (x, c, s')" and ok: "conn_ok conn"
  shows "conn_ok c"
proof -
  obtain res bs rc' where
    rd: "rustls_connection_read (rconn conn) (data_capacity conn - data_len conn - 1)
           = ((res, bs), rc')"
    by (metis prod.exhaust)
  from ok have cap: "data_capacity conn = 2048" and len: "data_len conn < 2048"
    and blk: "2048 \<le> length (data_from_client conn)"
    by (auto simp: conn_ok_def)
  from rustls_connection_read_bound [OF rd] cap unat_avail [OF len]
  have bs: "length bs \<le> 2047 - unat (data_len conn)" by simp
  from len have l: "unat (data_len conn) < 2048" by unat_arith
  have new: "unat (data_len conn + of_nat (length bs)) = unat (data_len conn) + length bs"
    using unat_len_add [OF len bs] .
  then have "unat (data_len conn + of_nat (length bs)) < 2048" using bs l by simp
  then have less: "data_len conn + of_nat (length bs) < 2048" by unat_arith
  have lm: "length (mem_write (data_from_client conn) (unat (data_len conn)) bs)
              = length (data_from_client conn)"
    using bs l blk by (intro length_mem_write) simp
  from st rd show ?thesis
    using cap len blk less lm
    by (auto simp: copy_step_def Let_def conn_ok_def split: if_splits prod.splits)
qed

lemma copy_step_keeps:
  assumes "copy_step conn s = (x, c, s')"
  shows "keeps conn s c s'"
  using assms copy_step_ok [OF assms]
  by (auto simp: keeps_def copy_step_def Let_def
           split: if_splits prod.splits
           dest: rustls_connection_read_accepted write_all_closed)

lemma copy_loop_keeps:
  assumes "copy_loop conn s = (r, c, s')" shows "keeps conn s c s'"
  by (rule copy_loop_invariant [OF assms, where P = "\<lambda>c t. keeps conn s c t"])
     (auto intro: keeps_refl keeps_trans copy_step_keeps)


lemma length_resize: "length (resize mem k) = k"
  by (simp add: resize_def)

lemma realloc_closed: "realloc s mem k = (r, s') \<Longrightarrow> closed s' = closed s"
  by (auto simp: realloc_def split: list.splits)

lemma realloc_length: "realloc s mem k = (Some mem', s') \<Longrightarrow> length mem' = k"
  by (auto simp: realloc_def length_resize split: list.splits if_splits)

lemma copy_plaintext_to_buffer_keeps:
  assumes "copy_plaintext_to_buffer conn s = (r, c, s')"
  shows "keeps conn s c s'"
proof (cases "data_capacity conn - data_len conn < 1024")
  case False
  with assms obtain r' where "copy_loop conn s = (r', c, s')"
    by (auto simp: copy_plaintext_to_buffer_def split: prod.splits)
  then show ?thesis by (rule copy_loop_keeps)
next
  case True
  obtain m s1 where ra: "realloc s (data_from_client conn) (unat (data_capacity conn * 2)) = (m, s1)"
    by force
  show ?thesis
  proof (cases m)
    case None
    with assms True ra realloc_closed [OF ra] show ?thesis
      by (auto simp: copy_plaintext_to_buffer_def keeps_def)
  next
    case (Some mem)
    with assms True ra obtain r' where
      cl: "copy_loop (conn\<lparr>data_from_client := mem\<rparr>) s1 = (r', c, s')"
      by (auto simp: copy_plaintext_to_buffer_def split: prod.splits)
    have "keeps conn s (conn\<lparr>data_from_client := mem\<rparr>) s1"
      using realloc_closed [OF ra] realloc_length [OF ra [unfolded Some]]
      by (auto simp: keeps_def conn_ok_def)
    with copy_loop_keeps [OF cl] show ?thesis by (rule keeps_trans [rotated])
  qed
qed

lemma sock_read_closed: "sock_read s len = (r, s') \<Longrightarrow> closed s' = closed s"
  by (auto simp: sock_read_def split: list.splits rd.splits)

lemma sock_write_closed: "sock_write s buf = (r, s') \<Longrightarrow> closed s' = closed s"
  by (auto simp: sock_write_def split: list.splits wr.splits)

lemma read_tls_keeps:
  "rustls_connection_read_tls (rconn conn) (read_cb conn) s = (r, rc', s')
     \<Longrightarrow> keeps conn s (conn\<lparr>rconn := rc'\<rparr>) s'"
  by (auto simp: rustls_connection_read_tls_def read_cb_def keeps_def conn_ok_def
           split: prod.splits if_splits dest: sock_read_closed)

lemma process_new_packets_accepted:
  "rustls_connection_process_new_packets rc = (r, rc') \<Longrightarrow> accepted rc' = accepted rc"
  by (auto simp: rustls_connection_process_new_packets_def split: list.splits packet.splits)

lemma keeps_rconn:
  assumes "accepted rc = accepted (rconn c)" and "keeps conn s c t"
  shows "keeps conn s (c\<lparr>rconn := rc\<rparr>) t"
  using assms unfolding keeps_def conn_ok_def by auto

lemma do_read_keeps:
  assumes "do_read conn s = (r, c, s')"
  shows "keeps conn s c s'"
proof -
  obtain p rc1 s1 where
    rt0: "rustls_connection_read_tls (rconn conn) (read_cb conn) s = (p, rc1, s1)"
    by (cases "rustls_connection_read_tls (rconn conn) (read_cb conn) s") auto
  obtain err n where p: "p = (err, n)" by force
  note rt = rt0 [unfolded p]
  note k1 = read_tls_keeps [OF rt]
  obtain res rc2 where pn: "rustls_connection_process_new_packets rc1 = (res, rc2)"
    by force
  have k2: "keeps conn s (conn\<lparr>rconn := rc2\<rparr>) s1"
    using keeps_rconn [OF _ k1, of rc2] process_new_packets_accepted [OF pn] by simp
  obtain r3 c3 s3 where cp: "copy_plaintext_to_buffer (conn\<lparr>rconn := rc2\<rparr>) s1 = (r3, c3, s3)"
    by (cases "copy_plaintext_to_buffer (conn\<lparr>rconn := rc2\<rparr>) s1") auto
  have k3: "keeps conn s c3 s3"
    using k2 copy_plaintext_to_buffer_keeps [OF cp] by (rule keeps_trans)
  obtain q s4 where sr0: "sock_read s3 2048 = (q, s4)" by (cases "sock_read s3 2048") auto
  obtain m bs where q: "q = (m, bs)" by force
  note sr = sr0 [unfolded q]
  have k4: "keeps conn s c3 s4"
    using k3 sock_read_closed [OF sr] by (simp add: keeps_def)
  show ?thesis
  proof (cases "err = EAGAIN \<or> err = EWOULDBLOCK \<or> err \<noteq> 0 \<or> n = 0")
    case True
    with assms rt have "c = conn\<lparr>rconn := rc1\<rparr> \<and> s' = s1"
      by (auto simp: do_read_def Let_def split: if_splits)
    with k1 show ?thesis by simp
  next
    case early: False
    show ?thesis
    proof (cases "res = RUSTLS_RESULT_OK")
      case False
      with assms rt pn early have "c = conn\<lparr>rconn := rc2\<rparr> \<and> s' = s1"
        by (auto simp: do_read_def Let_def)
      with k2 show ?thesis by simp
    next
      case True
      show ?thesis
      proof (cases r3)
        case None
        with assms rt pn early cp True have "c = c3 \<and> s' = s3"
          by (simp add: do_read_def Let_def)
        with k3 show ?thesis by simp
      next
        case (Some result)
        with assms rt pn early cp True sr
        have "(c = c3 \<and> s' = s3) \<or> (c = c3 \<and> s' = s4)"
          by (simp add: do_read_def Let_def split: if_splits)
        with k3 k4 show ?thesis by blast
      qed
    qed
  qed
qed

lemma read_loop_invariant:
  assumes "read_loop conn s = (x, c, s')" and "P conn s"
    and step: "\<And>conn s r c s'. P conn s \<Longrightarrow> do_read conn s = (r, c, s') \<Longrightarrow> P c s'"
  shows "P c s'"
  using assms(1,2)
proof (induction conn s rule: read_loop.induct)
  case (1 conn s)
  obtain r c1 s1 where dr: "do_read conn s = (r, c1, s1)" by (metis prod.exhaust)
  have P1: "P c1 s1" using step [OF "1.prems"(2) dr] .
  show ?case
  proof (cases "r = Some CRUSTLS_DEMO_OK")
    case True
    with "1.prems" dr have "read_loop c1 s1 = (x, c, s')"
      by (simp add: read_loop.simps [of conn])
    with "1.IH" [OF dr [symmetric] _ refl, of CRUSTLS_DEMO_OK] True P1 show ?thesis by auto
  next
    case False
    with "1.prems" dr P1 show ?thesis
      by (auto simp: read_loop.simps [of conn] split: option.splits if_splits)
  qed
qed

lemma read_loop_keeps:
  assumes "read_loop conn s = (x, c, s')" shows "keeps conn s c s'"
  by (rule read_loop_invariant [OF assms, where P = "\<lambda>c t. keeps conn s c t"])
     (auto intro: keeps_refl keeps_trans do_read_keeps)

lemma write_step_keeps:
  assumes "write_step conn s = (x, c, s')" shows "keeps conn s c s'"
proof -
  obtain n t where sw: "sock_write s (tls_out (rconn conn)) = (n, t)" by force
  from assms sw have "fd c = fd conn \<and> data_capacity c = data_capacity conn
      \<and> data_len c = data_len conn \<and> data_from_client c = data_from_client conn
      \<and> accepted (rconn c) = accepted (rconn conn) \<and> (s' = s \<or> s' = t)"
    by (auto simp: write_step_def rustls_connection_write_tls_def write_cb_def
             split: if_splits)
  with sock_write_closed [OF sw] show ?thesis by (auto simp: keeps_def conn_ok_def)
qed


lemma progress_refl: "progress st conn s st conn s"
  by (simp add: progress_def)

lemma keeps_progress: "keeps conn s c s' \<Longrightarrow> progress st conn s st c s'"
  by (simp add: progress_def keeps_def)

lemma progress_trans:
  assumes "progress st a s st' b t" and "progress st' b t st'' c u"
  shows "progress st a s st'' c u"
  using assms unfolding progress_def by (elim conjE disjE) auto

lemma request_is_finished_keeps:
  "request_is_finished conn = (fin, c) \<Longrightarrow> keeps conn s c s"
  by (auto simp: request_is_finished_def Let_def keeps_def conn_ok_def)

lemma send_response_progress:
  assumes "send_response conn = (ok, c)"
  shows "progress READING_REQUEST conn s SENT_RESPONSE c s"
  using assms
  by (auto simp: send_response_def rustls_connection_write_def Let_def progress_def conn_ok_def
        take_is_prefix)

lemma reply_step_progress:
  assumes "reply_step st conn = (x, st', c)"
  shows "progress st conn s st' c s"
proof (cases "st = READING_REQUEST")
  case False
  with assms show ?thesis by (simp add: reply_step_def progress_refl)
next
  case True
  obtain fin c1 where rf: "request_is_finished conn = (fin, c1)" by force
  note k = keeps_progress [OF request_is_finished_keeps [OF rf], of st s]
  show ?thesis
  proof (cases fin)
    case False
    with assms True rf k show ?thesis by (simp add: reply_step_def)
  next
    case fin: True
    obtain ok c2 where sr: "send_response c1 = (ok, c2)" by force
    from assms True rf fin sr have "st' = SENT_RESPONSE" "c = c2"
      by (simp_all add: reply_step_def)
    with progress_trans [OF k [unfolded True] send_response_progress [OF sr]] True
    show ?thesis by simp
  qed
qed


lemma read_phase_keeps: "read_phase b conn s = (x, c, s') \<Longrightarrow> keeps conn s c s'"
  by (auto simp: read_phase_def keeps_refl read_loop_keeps split: if_splits)

lemma write_phase_keeps: "write_phase b conn s = (x, c, s') \<Longrightarrow> keeps conn s c s'"
  by (auto simp: write_phase_def keeps_refl write_step_keeps split: if_splits)

lemma handle_iter_progress:
  assumes "handle_iter sel st conn s = (x, st', c, s')"
  shows "progress st conn s st' c s'"
proof (cases sel)
  case (SelectFail e)
  with assms show ?thesis by (auto simp: handle_iter_def progress_def)
next
  case (SelectReady r w)
  let ?rs = "rustls_connection_wants_read (rconn conn) \<and> r"
  let ?ws = "rustls_connection_wants_write (rconn conn) \<and> w"
  let ?s0 = "if \<not> ?rs \<and> \<not> ?ws then s\<lparr>errno := EINVAL\<rparr> else s"
  have p0: "progress st conn s st conn ?s0" by (simp add: progress_def)
  obtain x1 c1 s1 where rp: "read_phase ?rs conn ?s0 = (x1, c1, s1)"
    by (cases "read_phase ?rs conn ?s0") auto
  have p1: "progress st conn s st c1 s1"
    using p0 keeps_progress [OF read_phase_keeps [OF rp]] by (rule progress_trans)
  obtain x2 c2 s2 where wp: "write_phase ?ws c1 s1 = (x2, c2, s2)"
    by (cases "write_phase ?ws c1 s1") auto
  have p2: "progress st conn s st c2 s2"
    using p1 keeps_progress [OF write_phase_keeps [OF wp]] by (rule progress_trans)
  obtain x3 st3 c3 where rs3: "reply_step st c2 = (x3, st3, c3)"
    by (cases "reply_step st c2") auto
  have p3: "progress st conn s st3 c3 s2"
    using p2 reply_step_progress [OF rs3] by (rule progress_trans)
  have "handle_iter sel st conn s =
       (case x1 of Continue \<Rightarrow>
         (case x2 of Continue \<Rightarrow> (x3, st3, c3, s2) | _ \<Rightarrow> (x2, st, c2, s2))
       | _ \<Rightarrow> (x1, st, c1, s1))"
    unfolding SelectReady handle_iter_def Let_def select_outcome.case rp prod.case
    by (cases x1; cases x2) (simp_all add: wp rs3)
  with assms have "(st' = st \<and> c = c1 \<and> s' = s1) \<or> (st' = st \<and> c = c2 \<and> s' = s2)
               \<or> (st' = st3 \<and> c = c3 \<and> s' = s2)"
    by (cases x1; cases x2) simp_all
  with p1 p2 p3 show ?thesis by blast
qed

lemma handle_conn_loop_progress:
  "handle_conn_loop sels st conn s = (x, st', c, s') \<Longrightarrow> progress st conn s st' c s'"
proof (induction sels arbitrary: st conn s)
  case Nil
  then show ?case by (simp add: progress_refl)
next
  case (Cons sel sels)
  obtain x1 st1 c1 s1 where it: "handle_iter sel st conn s = (x1, st1, c1, s1)"
    by (cases "handle_iter sel st conn s") auto
  note p1 = handle_iter_progress [OF it]
  show ?case
  proof (cases "x1 = Continue")
    case True
    with Cons.prems it have "handle_conn_loop sels st1 c1 s1 = (x, st', c, s')" by simp
    from p1 Cons.IH [OF this] show ?thesis by (rule progress_trans)
  next
    case False
    with Cons.prems it have "st' = st1 \<and> c = c1 \<and> s' = s1"
      by (cases x1) simp_all
    with p1 show ?thesis by simp
  qed
qed


subsection \<open>The terminator scan\<close>

lemma find_first_sublist: "find_first needle hay \<noteq> None \<longleftrightarrow> sublist needle hay"
  by (induction hay) (auto simp: sublist_Cons_right)

lemma takeWhile_append_stop: "\<not> P y \<Longrightarrow> takeWhile P (xs @ y # ys) = takeWhile P xs"
  by (induction xs) auto

lemma c_string_sentinel:
  assumes "n < length mem"
  shows "c_string (mem[n := 0]) = c_string (take n mem)"
proof -
  have "mem[n := 0] = take n mem @ 0 # drop (Suc n) mem"
    using assms by (rule upd_conv_take_nth_drop)
  then show ?thesis by (simp add: c_string_def takeWhile_append_stop)
qed

text \<open>
  C7 (as amended). When \<open>data_len\<close> indexes a byte of the block, \<open>request_is_finished\<close>
  stores 0 at index \<open>data_len\<close> and returns true exactly when the pattern CR LF CR LF
  occurs in the accumulated bytes that precede the first NUL byte among them. When the
  accumulated bytes hold no NUL byte this is an occurrence anywhere in the first
  \<open>data_len\<close> bytes.
\<close>

theorem request_is_finished_scans_c_string:
  assumes "unat (data_len conn) < length (data_from_client conn)"
  shows "request_is_finished conn =
           (sublist CRLFCRLF (c_string (take (unat (data_len conn)) (data_from_client conn))),
            conn\<lparr>data_from_client := (data_from_client conn)[unat (data_len conn) := 0]\<rparr>)
         \<and> (0 \<notin> set (take (unat (data_len conn)) (data_from_client conn)) \<longrightarrow>
              fst (request_is_finished conn)
                = sublist CRLFCRLF (take (unat (data_len conn)) (data_from_client conn)))"
proof (intro conjI impI)
  show 1: "request_is_finished conn =
           (sublist CRLFCRLF (c_string (take (unat (data_len conn)) (data_from_client conn))),
            conn\<lparr>data_from_client := (data_from_client conn)[unat (data_len conn) := 0]\<rparr>)"
    using find_first_sublist [of CRLFCRLF]
    by (simp add: request_is_finished_def Let_def strstr_def c_string_sentinel [OF assms])
  assume "0 \<notin> set (take (unat (data_len conn)) (data_from_client conn))"
  then have "c_string (take (unat (data_len conn)) (data_from_client conn))
               = take (unat (data_len conn)) (data_from_client conn)"
    unfolding c_string_def by (intro takeWhile_eq_all_conv [THEN iffD2]) auto
  with 1 show "fst (request_is_finished conn)
             = sublist CRLFCRLF (take (unat (data_len conn)) (data_from_client conn))"
    by simp
qed

theorem request_is_finished_scans_c_string_witness:
  "unat (data_len get_request) < length (data_from_client get_request)
   \<and> 0 \<notin> set (take (unat (data_len get_request)) (data_from_client get_request))
   \<and> fst (request_is_finished get_request)"
proof -
  have h: "unat (data_len get_request) < length (data_from_client get_request)"
    by (simp add: get_request_def new_conn_def)
  have z: "0 \<notin> set (take (unat (data_len get_request)) (data_from_client get_request))"
    by (simp add: get_request_def new_conn_def)
  have "sublist CRLFCRLF (take (unat (data_len get_request)) (data_from_client get_request))"
    by (simp add: get_request_def new_conn_def CRLFCRLF_def sublist_code prefix_code)
  with request_is_finished_scans_c_string [OF h] z
  have "fst (request_is_finished get_request)" by blast
  with h z show ?thesis by blast
qed

text \<open>
  C7 as stated fails: the pattern occurs within the first \<open>data_len\<close> bytes of
  \<open>nul_request\<close>, after a NUL byte, and the scan returns false.
\<close>

theorem nul_hides_terminator:
  "sublist CRLFCRLF (take (unat (data_len nul_request)) (data_from_client nul_request))
   \<and> \<not> fst (request_is_finished nul_request)"
  by (simp add: nul_request_def new_conn_def request_is_finished_def strstr_def c_string_def
        CRLFCRLF_def sublist_code prefix_code Let_def)

subsection \<open>Running the model\<close>

text \<open>The defining equations needed to run the model on a scenario.\<close>

lemmas run_defs =
  handle_conn_def handle_iter_def read_phase_def write_phase_def read_loop.simps do_read_def
  rustls_connection_read_tls_def read_cb_def sock_read_def quiet_os_def new_conn_def
  idle_engine_def rustls_connection_wants_read_def rustls_connection_wants_write_def
  EAGAIN_def EWOULDBLOCK_def EINVAL_def
  rustls_connection_process_new_packets_def
  copy_plaintext_to_buffer_def copy_loop.simps copy_step_def rustls_connection_read_def
  realloc_def resize_def
  bytes_def Let_def mem_write_def write_all.simps int_of_size_t_def stdout_write_def
  reply_step_def request_is_finished_def strstr_def c_string_def CRLFCRLF_def
  send_response_def rustls_connection_write_def response_def write_step_def
  rustls_connection_write_tls_def write_cb_def sock_write_def

text \<open>A needle whose first byte does not occur in the block is not found by the scan.\<close>

lemma find_first_absent:
  "needle \<noteq> [] \<Longrightarrow> hd needle \<notin> set hay \<Longrightarrow> find_first needle hay = None"
  by (induction hay) (auto simp: prefix_def neq_Nil_conv)

lemma scan_absent:
  assumes "needle \<noteq> []" and "hd needle \<notin> set mem" and "hd needle \<noteq> v"
  shows "find_first needle (takeWhile P (mem[n := v])) = None"
proof -
  have "set (takeWhile P (mem[n := v])) \<subseteq> insert v (set mem)"
    using set_update_subset_insert [of mem n v] by (auto dest: set_takeWhileD)
  with assms have "hd needle \<notin> set (takeWhile P (mem[n := v]))" by auto
  with assms(1) show ?thesis by (rule find_first_absent)
qed

lemma two_requests_run:
  "(case handle_conn_loop two_rounds READING_REQUEST (new_conn 4 two_requests_engine) two_requests_os
    of (x, st, c, s) \<Rightarrow> (x, st, data_len c, accepted (rconn c), sock_sent s))
   = (Continue, SENT_RESPONSE, 54, [response], response)"
  by (simp add: run_defs two_rounds_def two_requests_engine_def two_requests_os_def get_bytes_def)

subsection \<open>The accumulator stays within its bounds\<close>

text \<open>
  C10. For a connection set up as \<open>main\<close> does, at the end of every round of the loop
  of \<open>handle_conn\<close> (however the run went, and whether or not the loop has ended),
  \<open>data_len\<close> is strictly below \<open>data_capacity\<close>, the tracked capacity is still 2048 (so
  \<open>data_len\<close> never reaches 2048), and index \<open>data_len\<close>, where the terminator scan
  stores its sentinel, lies inside the block.
\<close>

theorem data_len_below_capacity:
  assumes "handle_conn_loop sels READING_REQUEST (new_conn clientfd rc) s = (x, st, c, s')"
  shows "data_len c < data_capacity c \<and> data_capacity c = 2048
         \<and> unat (data_len c) < length (data_from_client c)"
proof -
  have "conn_ok (new_conn clientfd rc)" by (simp add: conn_ok_def new_conn_def)
  with handle_conn_loop_progress [OF assms] have ok: "conn_ok c" by (simp add: progress_def)
  then have lt: "data_len c < data_capacity c"
    and blk: "unat (data_capacity c) \<le> length (data_from_client c)"
    by (auto simp: conn_ok_def)
  from lt have "unat (data_len c) < unat (data_capacity c)"
    by (simp only: word_less_nat_alt)
  with blk have "unat (data_len c) < length (data_from_client c)" by simp
  with ok lt show ?thesis by (auto simp: conn_ok_def)
qed

theorem data_len_below_capacity_witness:
  "\<exists>x st c s'.
     handle_conn_loop two_rounds READING_REQUEST (new_conn 4 two_requests_engine) two_requests_os
       = (x, st, c, s')
     \<and> data_len c = 54 \<and> data_len c < data_capacity c \<and> data_capacity c = 2048
     \<and> unat (data_len c) < length (data_from_client c)"
proof -
  obtain x st c s' where
    run: "handle_conn_loop two_rounds READING_REQUEST (new_conn 4 two_requests_engine)
            two_requests_os = (x, st, c, s')"
    by (cases "handle_conn_loop two_rounds READING_REQUEST (new_conn 4 two_requests_engine)
            two_requests_os") auto
  from two_requests_run have "data_len c = 54" by (simp add: run)
  with data_len_below_capacity [OF run] run show ?thesis by blast
qed

subsection \<open>At most one reply\<close>

text \<open>
  C5. Over any run of the loop of \<open>handle_conn\<close>, from any state: either the exchange
  state is unchanged and no plaintext was handed to the engine, or the state went from
  \<open>READING_REQUEST\<close> to \<open>SENT_RESPONSE\<close> and the engine was handed exactly one reply (a
  prefix of the fixed response; the whole of it unless the process aborted). A run that
  starts in \<open>SENT_RESPONSE\<close> therefore stays there and writes nothing, whatever arrives.
\<close>

theorem reply_at_most_once:
  assumes "handle_conn_loop sels st conn s = (x, st', c, s')"
  shows "(st' = st \<and> accepted (rconn c) = accepted (rconn conn))
         \<or> (st = READING_REQUEST \<and> st' = SENT_RESPONSE
            \<and> (\<exists>w. accepted (rconn c) = accepted (rconn conn) @ [w] \<and> prefix w response))"
  using handle_conn_loop_progress [OF assms] by (simp add: progress_def)

theorem reply_at_most_once_witness:
  "\<exists>x st' c s'.
     handle_conn_loop two_rounds READING_REQUEST (new_conn 4 two_requests_engine) two_requests_os
       = (x, st', c, s')
     \<and> st' = SENT_RESPONSE
     \<and> (\<exists>w. accepted (rconn c) = [w] \<and> prefix w response)"
proof -
  obtain x st' c s' where
    run: "handle_conn_loop two_rounds READING_REQUEST (new_conn 4 two_requests_engine)
            two_requests_os = (x, st', c, s')"
    by (cases "handle_conn_loop two_rounds READING_REQUEST (new_conn 4 two_requests_engine)
            two_requests_os") auto
  from two_requests_run have st: "st' = SENT_RESPONSE" by (simp add: run)
  have "accepted (rconn (new_conn 4 two_requests_engine)) = []"
    by (simp add: new_conn_def two_requests_engine_def idle_engine_def)
  with reply_at_most_once [OF run] st run show ?thesis by auto
qed

subsection \<open>The write step\<close>

text \<open>
  A round of the loop whose read phase has not ended the connection: what is left of it
  is the write phase and the reply step.
\<close>

lemma handle_iter_after_read:
  assumes "read_phase (rustls_connection_wants_read (rconn conn) \<and> r) conn
             (if \<not> (rustls_connection_wants_read (rconn conn) \<and> r)
                 \<and> \<not> (rustls_connection_wants_write (rconn conn) \<and> w)
              then s\<lparr>errno := EINVAL\<rparr> else s) = (Continue, c1, s1)"
  shows "handle_iter (SelectReady r w) st conn s =
           (case write_phase (rustls_connection_wants_write (rconn conn) \<and> w) c1 s1 of
              (Continue, c2, s2) \<Rightarrow>
                (case reply_step st c2 of (x, st', c3) \<Rightarrow> (x, st', c3, s2))
            | (x, c2, s2) \<Rightarrow> (x, st, c2, s2))"
  using assms by (simp add: handle_iter_def Let_def)

text \<open>
  C3 (as amended). Take a round of the loop of \<open>handle_conn\<close> in which the socket is in
  the write set (the engine wants to write and select reports the socket writable) and
  whose read phase has not ended the connection. The round calls \<open>write_tls\<close> once, on
  the connection and environment the read phase left. When \<open>write_tls\<close> reports no error
  and a non-zero number of bytes, the round goes on to the reply step and the loop to its
  next iteration. In every other case (an error, or 0 bytes with no error) the round
  ends the connection: \<open>handle_conn\<close> goes to cleanup with \<open>ret = 1\<close> and closes the
  socket.
\<close>

theorem flush_outcome_decides_the_round:
  assumes ww: "rustls_connection_wants_write (rconn conn)"
    and rp: "read_phase (rustls_connection_wants_read (rconn conn) \<and> r) conn s
               = (Continue, c1, s1)"
    and wt: "rustls_connection_write_tls (rconn c1) (write_cb c1) s1 = ((err, n), rc', s2)"
  shows "handle_iter (SelectReady r True) st conn s =
           (if err = 0 \<and> n \<noteq> 0
            then (case reply_step st (c1\<lparr>rconn := rc'\<rparr>) of (x, st', c3) \<Rightarrow> (x, st', c3, s2))
            else (Cleanup 1, st, c1\<lparr>rconn := rc'\<rparr>, s2))
         \<and> handle_conn_loop (SelectReady r True # sels) st conn s =
           (if err = 0 \<and> n \<noteq> 0
            then (case reply_step st (c1\<lparr>rconn := rc'\<rparr>) of
                    (Continue, st', c3) \<Rightarrow> handle_conn_loop sels st' c3 s2
                  | (x, st', c3) \<Rightarrow> (x, st', c3, s2))
            else (Cleanup 1, st, c1\<lparr>rconn := rc'\<rparr>, s2))
         \<and> (err \<noteq> 0 \<or> n = 0 \<longrightarrow>
              handle_conn (SelectReady r True # sels) conn s =
                (Cleanup 1, READING_REQUEST, c1\<lparr>rconn := rc'\<rparr>,
                 (if 0 < fd conn then s2\<lparr>closed := closed s2 @ [fd conn]\<rparr> else s2)))"
proof -
  have ws: "write_phase True c1 s1 =
              ((if err = 0 \<and> n \<noteq> 0 then Continue else Cleanup 1), c1\<lparr>rconn := rc'\<rparr>, s2)"
    using wt by (simp add: write_phase_def write_step_def)
  have hi: "handle_iter (SelectReady r True) st conn s =
           (if err = 0 \<and> n \<noteq> 0
            then (case reply_step st (c1\<lparr>rconn := rc'\<rparr>) of (x, st', c3) \<Rightarrow> (x, st', c3, s2))
            else (Cleanup 1, st, c1\<lparr>rconn := rc'\<rparr>, s2))" for st
    using handle_iter_after_read [of conn r True s c1 s1 st] ww rp ws by simp
  have hl: "handle_conn_loop (SelectReady r True # sels) st conn s =
           (if err = 0 \<and> n \<noteq> 0
            then (case reply_step st (c1\<lparr>rconn := rc'\<rparr>) of
                    (Continue, st', c3) \<Rightarrow> handle_conn_loop sels st' c3 s2
                  | (x, st', c3) \<Rightarrow> (x, st', c3, s2))
            else (Cleanup 1, st, c1\<lparr>rconn := rc'\<rparr>, s2))" for st
    by (simp add: hi split: prod.splits ctl.splits)
  have hc: "handle_conn (SelectReady r True # sels) conn s =
                (Cleanup 1, READING_REQUEST, c1\<lparr>rconn := rc'\<rparr>,
                 (if 0 < fd conn then s2\<lparr>closed := closed s2 @ [fd conn]\<rparr> else s2))"
    if "err \<noteq> 0 \<or> n = 0"
    using that unfolding handle_conn_def Let_def hl by auto
  from hi hl hc show ?thesis by blast
qed

theorem flush_outcome_decides_the_round_witness:
  "rustls_connection_wants_write (rconn (new_conn 4 pending_engine))
   \<and> read_phase (rustls_connection_wants_read (rconn (new_conn 4 pending_engine)) \<and> False)
        (new_conn 4 pending_engine) quiet_os = (Continue, new_conn 4 pending_engine, quiet_os)
   \<and> rustls_connection_write_tls pending_engine (write_cb (new_conn 4 pending_engine)) quiet_os
       = ((0, 3), pending_engine\<lparr>tls_out := []\<rparr>, quiet_os\<lparr>sock_sent := [22, 3, 3]\<rparr>)
   \<and> (case handle_conn_loop [SelectReady False True] READING_REQUEST
              (new_conn 4 pending_engine) quiet_os
      of (x, st, c, s) \<Rightarrow> (x, st, sock_sent s)) = (Continue, READING_REQUEST, [22, 3, 3])
   \<and> read_phase (rustls_connection_wants_read (rconn (new_conn 4 pending_engine)) \<and> False)
        (new_conn 4 pending_engine) broken_write_os
       = (Continue, new_conn 4 pending_engine, broken_write_os)
   \<and> rustls_connection_write_tls pending_engine (write_cb (new_conn 4 pending_engine))
        broken_write_os
       = ((EIO, 0), pending_engine, quiet_os\<lparr>errno := EIO\<rparr>)
   \<and> handle_conn [SelectReady False True] (new_conn 4 pending_engine) broken_write_os
       = (Cleanup 1, READING_REQUEST, new_conn 4 pending_engine,
          quiet_os\<lparr>errno := EIO, closed := [4]\<rparr>)"
proof -
  let ?conn = "new_conn 4 pending_engine"
  have rc: "rconn ?conn = pending_engine" by (simp add: new_conn_def)
  have ww: "rustls_connection_wants_write (rconn ?conn)"
    by (simp add: new_conn_def pending_engine_def rustls_connection_wants_write_def)
  have rp1: "read_phase (rustls_connection_wants_read (rconn ?conn) \<and> False) ?conn quiet_os
               = (Continue, ?conn, quiet_os)"
    by (simp add: read_phase_def)
  have rp2: "read_phase (rustls_connection_wants_read (rconn ?conn) \<and> False) ?conn
               broken_write_os = (Continue, ?conn, broken_write_os)"
    by (simp add: read_phase_def)
  have wt1: "rustls_connection_write_tls (rconn ?conn) (write_cb ?conn) quiet_os
       = ((0, 3), pending_engine\<lparr>tls_out := []\<rparr>, quiet_os\<lparr>sock_sent := [22, 3, 3]\<rparr>)"
    by (simp add: run_defs pending_engine_def)
  have wt2: "rustls_connection_write_tls (rconn ?conn) (write_cb ?conn) broken_write_os
       = ((EIO, 0), pending_engine, quiet_os\<lparr>errno := EIO\<rparr>)"
    by (simp add: run_defs pending_engine_def broken_write_os_def EIO_def)
  have rs: "(case reply_step READING_REQUEST (?conn\<lparr>rconn := pending_engine\<lparr>tls_out := []\<rparr>\<rparr>)
             of (x, st, c) \<Rightarrow> (x, st)) = (Continue, READING_REQUEST)"
    by (simp add: run_defs pending_engine_def scan_absent)
  from flush_outcome_decides_the_round [OF ww rp1 wt1, of READING_REQUEST "[]"] rs
  have a: "(case handle_conn_loop [SelectReady False True] READING_REQUEST ?conn quiet_os
      of (x, st, c, s) \<Rightarrow> (x, st, sock_sent s)) = (Continue, READING_REQUEST, [22, 3, 3])"
    by (auto simp: handle_conn_loop.simps split: prod.splits)
  from flush_outcome_decides_the_round [OF ww rp2 wt2, of READING_REQUEST "[]"]
  have b: "handle_conn [SelectReady False True] ?conn broken_write_os
       = (Cleanup 1, READING_REQUEST, new_conn 4 pending_engine,
          quiet_os\<lparr>errno := EIO, closed := [4]\<rparr>)"
    by (simp add: EIO_def new_conn_def quiet_os_def)
  from ww rp1 rp2 wt1 wt2 a b show ?thesis by (simp only: rc)
qed

text \<open>
  C3 as stated fails: the engine has three bytes pending, the socket is writable and
  takes none of them; \<open>write_tls\<close> returns 0 bytes with no error, and \<open>handle_conn\<close>
  goes to cleanup and closes the socket.
\<close>

theorem zero_byte_flush_terminates:
  "fst (rustls_connection_write_tls pending_engine (write_cb (new_conn 4 pending_engine))
          zero_write_os) = (0, 0)
   \<and> (case handle_conn [SelectReady False True] (new_conn 4 pending_engine) zero_write_os
      of (x, st, c, s) \<Rightarrow> (x, closed s)) = (Cleanup 1, [4])"
  by (simp add: run_defs pending_engine_def zero_write_os_def)

subsection \<open>Would-block outcomes\<close>

lemma reply_step_no_cleanup: "fst (reply_step st conn) \<noteq> Cleanup ret"
  by (simp add: reply_step_def split: prod.splits)

text \<open>
  The read loop after \<open>k\<close> successful rounds is the read loop from where they ended;
  \<open>do_read\<close> ends in one of three places; and bytes the engine has pending for the
  socket are still pending after a read phase.
\<close>

lemma read_rounds_loop:
  "read_rounds k conn s = Some (c1, s1) \<Longrightarrow> read_loop conn s = read_loop c1 s1"
proof (induction k arbitrary: conn s)
  case 0
  then show ?case by simp
next
  case (Suc k)
  obtain r c s' where dr: "do_read conn s = (r, c, s')" by (cases "do_read conn s") auto
  with Suc.prems have ok: "r = Some CRUSTLS_DEMO_OK" and rest: "read_rounds k c s' = Some (c1, s1)"
    by (auto split: if_splits)
  from dr ok have "read_loop conn s = read_loop c s'" by (simp add: read_loop.simps [of conn s])
  with Suc.IH [OF rest] show ?case by simp
qed

lemma do_read_route:
  assumes "do_read conn s = (r, c, s')"
  obtains (early) p rc1 s1 where
      "rustls_connection_read_tls (rconn conn) (read_cb conn) s = (p, rc1, s1)"
      "c = conn\<lparr>rconn := rc1\<rparr>"
  | (refused) p rc1 s1 res rc2 where
      "rustls_connection_read_tls (rconn conn) (read_cb conn) s = (p, rc1, s1)"
      "rustls_connection_process_new_packets rc1 = (res, rc2)"
      "c = conn\<lparr>rconn := rc2\<rparr>"
  | (copied) p rc1 s1 res rc2 r3 s3 where
      "rustls_connection_read_tls (rconn conn) (read_cb conn) s = (p, rc1, s1)"
      "rustls_connection_process_new_packets rc1 = (res, rc2)"
      "copy_plaintext_to_buffer (conn\<lparr>rconn := rc2\<rparr>) s1 = (r3, c, s3)"
proof -
  obtain p rc1 s1 where
    rt0: "rustls_connection_read_tls (rconn conn) (read_cb conn) s = (p, rc1, s1)"
    by (cases "rustls_connection_read_tls (rconn conn) (read_cb conn) s") auto
  obtain err n where p: "p = (err, n)" by force
  note rt = rt0 [unfolded p]
  obtain res rc2 where pn: "rustls_connection_process_new_packets rc1 = (res, rc2)"
    by force
  obtain r3 c3 s3 where cp: "copy_plaintext_to_buffer (conn\<lparr>rconn := rc2\<rparr>) s1 = (r3, c3, s3)"
    by (cases "copy_plaintext_to_buffer (conn\<lparr>rconn := rc2\<rparr>) s1") auto
  obtain q s4 where sr0: "sock_read s3 2048 = (q, s4)" by (cases "sock_read s3 2048") auto
  obtain m bs where q: "q = (m, bs)" by force
  note sr = sr0 [unfolded q]
  show ?thesis
  proof (cases "err = EAGAIN \<or> err = EWOULDBLOCK \<or> err \<noteq> 0 \<or> n = 0")
    case True
    with assms rt have "c = conn\<lparr>rconn := rc1\<rparr>"
      by (auto simp: do_read_def Let_def split: if_splits)
    with rt0 show ?thesis by (rule early)
  next
    case early: False
    show ?thesis
    proof (cases "res = RUSTLS_RESULT_OK")
      case False
      with assms rt pn early have "c = conn\<lparr>rconn := rc2\<rparr>"
        by (auto simp: do_read_def Let_def)
      with rt0 pn show ?thesis by (rule refused)
    next
      case True
      have "c = c3"
      proof (cases r3)
        case None
        with assms rt pn early cp True show ?thesis by (simp add: do_read_def Let_def)
      next
        case (Some result)
        with assms rt pn early cp True sr show ?thesis
          by (simp add: do_read_def Let_def split: if_splits)
      qed
      with rt0 pn cp show ?thesis by (auto intro: copied)
    qed
  qed
qed

lemma read_tls_engine:
  "rustls_connection_read_tls rc cb s = (p, rc1, s1)
     \<Longrightarrow> tls_out rc1 = tls_out rc \<and> plain rc1 = plain rc \<and> packets rc1 = packets rc"
  by (auto simp: rustls_connection_read_tls_def split: prod.splits if_splits)

lemma process_new_packets_tls_out:
  "rustls_connection_process_new_packets rc = (res, rc2) \<Longrightarrow> tls_out rc \<noteq> []
     \<Longrightarrow> tls_out rc2 \<noteq> []"
  by (auto simp: rustls_connection_process_new_packets_def split: list.splits packet.splits)

lemma copy_step_tls_out:
  "copy_step conn s = (x, c, s') \<Longrightarrow> tls_out (rconn c) = tls_out (rconn conn)"
  by (auto simp: copy_step_def Let_def rustls_connection_read_def split: if_splits prod.splits)

lemma copy_loop_tls_out:
  assumes "copy_loop conn s = (r, c, s')"
  shows "tls_out (rconn c) = tls_out (rconn conn)"
  by (rule copy_loop_invariant [OF assms, where P = "\<lambda>c t. tls_out (rconn c) = tls_out (rconn conn)"])
     (auto dest: copy_step_tls_out)

lemma copy_plaintext_to_buffer_tls_out:
  assumes "copy_plaintext_to_buffer conn s = (r, c, s')"
  shows "tls_out (rconn c) = tls_out (rconn conn)"
  using assms
  by (auto simp: copy_plaintext_to_buffer_def split: if_splits prod.splits option.splits
           dest: copy_loop_tls_out)

lemma do_read_tls_out:
  assumes "do_read conn s = (r, c, s')" and "tls_out (rconn conn) \<noteq> []"
  shows "tls_out (rconn c) \<noteq> []"
  using assms(1)
proof (cases rule: do_read_route)
  case (early p rc1 s1)
  with read_tls_engine [OF early(1)] assms(2) show ?thesis by simp
next
  case (refused p rc1 s1 res rc2)
  with read_tls_engine [OF refused(1)] process_new_packets_tls_out [OF refused(2)] assms(2)
  show ?thesis by simp
next
  case (copied p rc1 s1 res rc2 r3 s3)
  with read_tls_engine [OF copied(1)] process_new_packets_tls_out [OF copied(2)] assms(2)
    copy_plaintext_to_buffer_tls_out [OF copied(3)]
  show ?thesis by simp
qed

lemma read_phase_tls_out:
  assumes "read_phase b conn s = (x, c, s')" and "tls_out (rconn conn) \<noteq> []"
  shows "tls_out (rconn c) \<noteq> []"
proof (cases b)
  case False
  with assms show ?thesis by (simp add: read_phase_def)
next
  case True
  with assms(1) have rl: "read_loop conn s = (x, c, s')" by (simp add: read_phase_def)
  show ?thesis
  proof (rule read_loop_invariant [OF rl, where P = "\<lambda>c t. tls_out (rconn c) \<noteq> []"])
    show "tls_out (rconn conn) \<noteq> []" by (rule assms(2))
  next
    fix conn s r c s'
    assume "tls_out (rconn conn) \<noteq> []" and "do_read conn s = (r, c, s')"
    then show "tls_out (rconn c) \<noteq> []" by (rule do_read_tls_out [rotated])
  qed
qed

text \<open>
  C2 (as amended). The raw read: when, after any number of successful rounds of the read
  loop, the read on the socket that \<open>read_tls\<close> performs through \<open>read_cb\<close> fails with
  \<open>EAGAIN\<close> or \<open>EWOULDBLOCK\<close>, \<open>do_read\<close> returns \<open>CRUSTLS_DEMO_AGAIN\<close>, the read loop
  ends without ending the connection, and the round of \<open>handle_conn\<close> goes on to its
  write phase and reply step; unless one of those ends it, the loop goes back to select,
  and a round in which the socket is not writable never goes to cleanup. The raw write:
  when the socket is in the write set and the write on it fails with one of the two
  codes, \<open>write_cb\<close> returns the code, and the round ends the connection like every
  other error of \<open>write_tls\<close>: \<open>handle_conn\<close> goes to cleanup with \<open>ret = 1\<close> and
  closes the socket.
\<close>

theorem would_block_read_goes_on_write_ends:
  "(rustls_connection_wants_read (rconn conn)
      \<and> read_rounds k conn s = Some (c1, s1)
      \<and> sock_read s1 (read_size (rconn c1)) = ((- 1, bs), s2)
      \<and> (errno s2 = EAGAIN \<or> errno s2 = EWOULDBLOCK)
    \<longrightarrow> do_read c1 s1 = (Some CRUSTLS_DEMO_AGAIN, c1, s2)
        \<and> read_loop conn s = (Continue, c1, s2)
        \<and> handle_conn_loop (SelectReady True w # sels) st conn s =
            (case write_phase (rustls_connection_wants_write (rconn conn) \<and> w) c1 s2 of
               (Continue, c2, s3) \<Rightarrow>
                 (case reply_step st c2 of
                    (Continue, st', c3) \<Rightarrow> handle_conn_loop sels st' c3 s3
                  | (x, st', c3) \<Rightarrow> (x, st', c3, s3))
             | (x, c2, s3) \<Rightarrow> (x, st, c2, s3))
        \<and> (\<forall>ret. fst (handle_iter (SelectReady True False) st conn s) \<noteq> Cleanup ret))
   \<and> (rustls_connection_wants_write (rconn cw)
      \<and> read_phase (rustls_connection_wants_read (rconn cw) \<and> r) cw t = (Continue, d1, t1)
      \<and> sock_out t1 = WrFail e # rest
      \<and> (e = EAGAIN \<or> e = EWOULDBLOCK)
    \<longrightarrow> write_cb d1 t1 (tls_out (rconn d1)) = ((e, 0), t1\<lparr>errno := e, sock_out := rest\<rparr>)
        \<and> handle_iter (SelectReady r True) st cw t
            = (Cleanup 1, st, d1, t1\<lparr>errno := e, sock_out := rest\<rparr>)
        \<and> handle_conn (SelectReady r True # sels) cw t
            = (Cleanup 1, READING_REQUEST, d1,
               (if 0 < fd cw
                then t1\<lparr>errno := e, sock_out := rest, closed := closed t1 @ [fd cw]\<rparr>
                else t1\<lparr>errno := e, sock_out := rest\<rparr>)))"
proof (intro conjI impI; elim conjE)
  assume wr: "rustls_connection_wants_read (rconn conn)"
    and rr: "read_rounds k conn s = Some (c1, s1)"
    and sr: "sock_read s1 (read_size (rconn c1)) = ((- 1, bs), s2)"
    and e: "errno s2 = EAGAIN \<or> errno s2 = EWOULDBLOCK"
  show dr: "do_read c1 s1 = (Some CRUSTLS_DEMO_AGAIN, c1, s2)"
    using sr e
    by (auto simp: do_read_def rustls_connection_read_tls_def read_cb_def Let_def
                   EAGAIN_def EWOULDBLOCK_def)
  then have "read_loop c1 s1 = (Continue, c1, s2)" by (simp add: read_loop.simps [of c1 s1])
  with read_rounds_loop [OF rr] show rl: "read_loop conn s = (Continue, c1, s2)" by simp
  from wr rl have rp: "read_phase (rustls_connection_wants_read (rconn conn) \<and> True) conn
           (if \<not> (rustls_connection_wants_read (rconn conn) \<and> True)
               \<and> \<not> (rustls_connection_wants_write (rconn conn) \<and> w)
            then s\<lparr>errno := EINVAL\<rparr> else s) = (Continue, c1, s2)" for w
    by (simp add: read_phase_def)
  note hi = handle_iter_after_read [OF rp]
  show "handle_conn_loop (SelectReady True w # sels) st conn s =
            (case write_phase (rustls_connection_wants_write (rconn conn) \<and> w) c1 s2 of
               (Continue, c2, s3) \<Rightarrow>
                 (case reply_step st c2 of
                    (Continue, st', c3) \<Rightarrow> handle_conn_loop sels st' c3 s3
                  | (x, st', c3) \<Rightarrow> (x, st', c3, s3))
             | (x, c2, s3) \<Rightarrow> (x, st, c2, s3))"
    by (simp add: hi split: prod.splits ctl.splits)
  show "\<forall>ret. fst (handle_iter (SelectReady True False) st conn s) \<noteq> Cleanup ret"
  proof
    fix ret
    from reply_step_no_cleanup [of st c1 ret]
    show "fst (handle_iter (SelectReady True False) st conn s) \<noteq> Cleanup ret"
      by (cases "reply_step st c1") (simp add: hi write_phase_def)
  qed
next
  assume ww: "rustls_connection_wants_write (rconn cw)"
    and rp: "read_phase (rustls_connection_wants_read (rconn cw) \<and> r) cw t = (Continue, d1, t1)"
    and so: "sock_out t1 = WrFail e # rest"
    and e: "e = EAGAIN \<or> e = EWOULDBLOCK"
  from e have e0: "e \<noteq> 0" by (auto simp: EAGAIN_def EWOULDBLOCK_def)
  from ww have "tls_out (rconn cw) \<noteq> []" by (simp add: rustls_connection_wants_write_def)
  from read_phase_tls_out [OF rp this] have out: "tls_out (rconn d1) \<noteq> []" .
  show wc: "write_cb d1 t1 (tls_out (rconn d1)) = ((e, 0), t1\<lparr>errno := e, sock_out := rest\<rparr>)"
    using so by (simp add: write_cb_def sock_write_def)
  have ws: "write_phase True d1 t1 = (Cleanup 1, d1, t1\<lparr>errno := e, sock_out := rest\<rparr>)"
    using wc out e0 by (simp add: write_phase_def write_step_def rustls_connection_write_tls_def)
  show hi: "handle_iter (SelectReady r True) st cw t
            = (Cleanup 1, st, d1, t1\<lparr>errno := e, sock_out := rest\<rparr>)" for st
    using handle_iter_after_read [of cw r True t d1 t1 st] ww rp ws by simp
  show "handle_conn (SelectReady r True # sels) cw t
            = (Cleanup 1, READING_REQUEST, d1,
               (if 0 < fd cw
                then t1\<lparr>errno := e, sock_out := rest, closed := closed t1 @ [fd cw]\<rparr>
                else t1\<lparr>errno := e, sock_out := rest\<rparr>))"
    by (simp add: handle_conn_def Let_def hi)
qed

theorem would_block_read_goes_on_write_ends_witness:
  "\<exists>c1 s1.
     rustls_connection_wants_read (rconn (new_conn 4 hi_engine))
     \<and> read_rounds (Suc 0) (new_conn 4 hi_engine) hi_os = Some (c1, s1)
     \<and> sock_read s1 (read_size (rconn c1)) = ((- 1, []), s1\<lparr>errno := EAGAIN\<rparr>)
     \<and> errno (s1\<lparr>errno := EAGAIN\<rparr>) = EAGAIN
     \<and> data_len c1 = 2
     \<and> read_loop (new_conn 4 hi_engine) hi_os = (Continue, c1, s1\<lparr>errno := EAGAIN\<rparr>)
     \<and> fst (handle_iter (SelectReady True False) READING_REQUEST (new_conn 4 hi_engine) hi_os)
         = Continue
     \<and> rustls_connection_wants_write (rconn (new_conn 4 pending_engine))
     \<and> read_phase (rustls_connection_wants_read (rconn (new_conn 4 pending_engine)) \<and> False)
          (new_conn 4 pending_engine) blocked_write_os
         = (Continue, new_conn 4 pending_engine, blocked_write_os)
     \<and> sock_out blocked_write_os = [WrFail EAGAIN]
     \<and> handle_conn [SelectReady False True] (new_conn 4 pending_engine) blocked_write_os
         = (Cleanup 1, READING_REQUEST, new_conn 4 pending_engine,
            quiet_os\<lparr>errno := EAGAIN, closed := [4]\<rparr>)"
proof -
  let ?conn = "new_conn 4 hi_engine"
  let ?cw = "new_conn 4 pending_engine"
  have wr: "rustls_connection_wants_read (rconn ?conn)"
    by (simp add: new_conn_def hi_engine_def idle_engine_def rustls_connection_wants_read_def)
  have ev: "map_option (\<lambda>(c, s). (data_len c, sock_in s)) (read_rounds (Suc 0) ?conn hi_os)
              = Some (2, [])"
    by (simp add: run_defs hi_engine_def hi_os_def)
  then obtain c1 s1 where rr: "read_rounds (Suc 0) ?conn hi_os = Some (c1, s1)"
    and len: "data_len c1 = 2" and drained: "sock_in s1 = []"
    by (cases "read_rounds (Suc 0) ?conn hi_os") auto
  have sr: "sock_read s1 (read_size (rconn c1)) = ((- 1, []), s1\<lparr>errno := EAGAIN\<rparr>)"
    using drained by (simp add: sock_read_def)
  have e: "errno (s1\<lparr>errno := EAGAIN\<rparr>) = EAGAIN" by simp
  have go: "fst (handle_iter (SelectReady True False) READING_REQUEST ?conn hi_os) = Continue"
    by (simp add: run_defs hi_engine_def hi_os_def)
  have ww: "rustls_connection_wants_write (rconn ?cw)"
    by (simp add: new_conn_def pending_engine_def rustls_connection_wants_write_def)
  have rp: "read_phase (rustls_connection_wants_read (rconn ?cw) \<and> False) ?cw blocked_write_os
              = (Continue, ?cw, blocked_write_os)"
    by (simp add: read_phase_def)
  have so: "sock_out blocked_write_os = [WrFail EAGAIN]"
    by (simp add: blocked_write_os_def quiet_os_def)
  note th = would_block_read_goes_on_write_ends
    [where conn = ?conn and k = "Suc 0" and s = hi_os and ?c1.0 = c1 and ?s1.0 = s1
       and bs = "[]" and ?s2.0 = "s1\<lparr>errno := EAGAIN\<rparr>" and cw = ?cw and r = False
       and t = blocked_write_os and ?d1.0 = ?cw and ?t1.0 = blocked_write_os
       and e = EAGAIN and rest = "[]" and st = READING_REQUEST and sels = "[]" and w = False]
  from th wr rr sr e have rl: "read_loop ?conn hi_os = (Continue, c1, s1\<lparr>errno := EAGAIN\<rparr>)"
    by blast
  from th ww rp so
  have "handle_conn [SelectReady False True] ?cw blocked_write_os
         = (Cleanup 1, READING_REQUEST, ?cw,
            (if 0 < fd ?cw
             then blocked_write_os\<lparr>errno := EAGAIN, sock_out := [],
                                   closed := closed blocked_write_os @ [fd ?cw]\<rparr>
             else blocked_write_os\<lparr>errno := EAGAIN, sock_out := []\<rparr>))"
    by blast
  then have hc: "handle_conn [SelectReady False True] ?cw blocked_write_os
         = (Cleanup 1, READING_REQUEST, ?cw, quiet_os\<lparr>errno := EAGAIN, closed := [4]\<rparr>)"
    by (simp add: new_conn_def blocked_write_os_def quiet_os_def)
  from wr rr sr e len rl go ww rp so hc show ?thesis by blast
qed

text \<open>
  C2 as stated fails for the raw write: \<open>write_cb\<close> hands \<open>EAGAIN\<close> back as its
  result, \<open>write_tls\<close> reports it, and \<open>handle_conn\<close> goes to cleanup and closes the
  socket.
\<close>

theorem write_would_block_terminates:
  "fst (write_cb (new_conn 4 pending_engine) blocked_write_os (tls_out pending_engine))
     = (EAGAIN, 0)
   \<and> (case handle_conn [SelectReady False True] (new_conn 4 pending_engine) blocked_write_os
      of (x, st, c, s) \<Rightarrow> (x, closed s)) = (Cleanup 1, [4])"
  by (simp add: run_defs pending_engine_def blocked_write_os_def)

subsection \<open>The read after close-notify\<close>

text \<open>
  C6, the code at the failing input. The peer keeps sending after its close-notify. When
  an earlier read of the connection has failed with \<open>EWOULDBLOCK\<close>, errno still holds
  that value after the successful read of the five trailing bytes, the test
  \<open>n != 0 && errno != EWOULDBLOCK\<close> is false, and the connection ends as a clean
  close-notify (\<open>ret = 0\<close>). Without the earlier failure the same traffic is reported as an
  error (\<open>ret\<close> stays 1).
\<close>

theorem stale_errno_hides_trailing_bytes:
  "(case handle_conn [SelectReady True False, SelectReady True False]
           (new_conn 4 closing_engine) trailing_os
    of (x, st, c, s) \<Rightarrow> (x, errno s, sock_in s, closed s)) = (Cleanup 0, EWOULDBLOCK, [], [4])
   \<and> (case handle_conn [SelectReady True False]
           (new_conn 4 closing_at_once_engine) trailing_at_once_os
    of (x, st, c, s) \<Rightarrow> (x, errno s, sock_in s, closed s)) = (Cleanup 1, 0, [], [4])"
  by (simp add: run_defs closing_engine_def trailing_os_def closing_at_once_engine_def
        trailing_at_once_os_def)


subsection \<open>The capacity field\<close>

text \<open>
  C4, the code at the failing input. After 1025 bytes the free space is below 1024 and
  every later call of \<open>copy_plaintext_to_buffer\<close> reallocates, always to twice the
  unchanged \<open>data_capacity\<close>: the field stays 2048, the block is 4096 bytes after the
  first reallocation and after the second, and the free space stays below 1024.
\<close>

theorem capacity_field_never_doubles:
  "(case handle_conn [SelectReady True False] (new_conn 4 growing_engine) three_records_os
    of (x, st, c, s) \<Rightarrow>
      (x, data_len c, data_capacity c - data_len c < 1024, data_capacity c,
       length (data_from_client c)))
   = (Continue, 1027, True, 2048, 4096)"
  by (simp add: run_defs growing_engine_def three_records_os_def scan_absent)

text \<open>
  C1, the code at the failing input. The peer sends 2048 bytes of plaintext and then one
  more. The buffer takes the first 2047; the other two bytes stay in the engine, which
  from then on does not ask to read, and the connection waits in select.
\<close>

theorem plaintext_beyond_2047_not_accumulated:
  "(case handle_conn [SelectReady True False, SelectReady True False]
           (new_conn 4 big_engine) two_records_os
    of (x, st, c, s) \<Rightarrow>
      (x, st, data_len c, take (unat (data_len c)) (data_from_client c), plain (rconn c)))
   = (Continue, READING_REQUEST, 2047, replicate 2047 97, [97, 98])"
  by (simp add: run_defs big_engine_def two_records_os_def scan_absent)

subsection \<open>No plaintext is lost between the engine and the buffer\<close>

lemma conn_ok_rconn [simp]: "conn_ok (conn\<lparr>rconn := rc\<rparr>) = conn_ok conn"
  by (simp add: conn_ok_def)

lemma steady_refl: "steady c c"
  by (simp add: steady_def)

lemma steady_trans: "steady a b \<Longrightarrow> steady b c \<Longrightarrow> steady a c"
  by (simp add: steady_def)

lemma steady_rconn:
  assumes "plain rc @ concat (map payload (packets rc))
             = plain (rconn c) @ concat (map payload (packets (rconn c)))"
  shows "steady c (c\<lparr>rconn := rc\<rparr>)"
  using assms by (simp add: steady_def stream_def accumulated_def)

lemma rustls_connection_read_stream:
  assumes "rustls_connection_read rc count = ((res, bs), rc')"
  shows "bs @ plain rc' = plain rc \<and> packets rc' = packets rc
         \<and> (res \<noteq> RUSTLS_RESULT_OK \<longrightarrow> bs = [])"
  using assms by (auto simp: rustls_connection_read_def split: if_splits)

lemma take_mem_write:
  "off \<le> length mem \<Longrightarrow> take (off + length bs) (mem_write mem off bs) = take off mem @ bs"
  by (simp add: mem_write_def)

lemma copy_step_steady:
  assumes st: "copy_step conn s = (x, c, s')"
  shows "steady conn c"
  unfolding steady_def
proof (intro impI conjI)
  assume ok: "conn_ok conn"
  show "conn_ok c" using copy_step_ok [OF st ok] .
  obtain res bs rc' where
    rd: "rustls_connection_read (rconn conn) (data_capacity conn - data_len conn - 1)
           = ((res, bs), rc')"
    by (metis prod.exhaust)
  let ?off = "unat (data_len conn)"
  let ?mem = "mem_write (data_from_client conn) ?off bs"
  from ok have cap: "data_capacity conn = 2048" and len: "data_len conn < 2048"
    and blk: "2048 \<le> length (data_from_client conn)"
    by (auto simp: conn_ok_def)
  from rustls_connection_read_bound [OF rd] cap unat_avail [OF len]
  have bs: "length bs \<le> 2047 - unat (data_len conn)" by simp
  from len have l: "?off < 2048" by unat_arith
  have new: "unat (data_len conn + of_nat (length bs)) = ?off + length bs"
    using unat_len_add [OF len bs] .
  from bs have zero: "(of_nat (length bs) :: size_t) = 0 \<longleftrightarrow> bs = []"
    using new by (cases bs) auto
  note eng = rustls_connection_read_stream [OF rd]
  from st rd have c: "rconn c = rc' \<and> data_from_client c = ?mem
      \<and> (data_len c = data_len conn + of_nat (length bs) \<or> data_len c = data_len conn \<and> bs = [])"
    using eng zero
    by (auto simp: copy_step_def Let_def split: if_splits prod.splits)
  have "take (?off + length bs) ?mem = take ?off (data_from_client conn) @ bs"
    using l blk by (intro take_mem_write) simp
  with c new have "accumulated c = accumulated conn @ bs"
    by (auto simp: accumulated_def)
  with c eng show "stream c = stream conn"
    by (simp add: stream_def)
qed

lemma copy_loop_steady:
  assumes "copy_loop conn s = (r, c, s')" shows "steady conn c"
  by (rule copy_loop_invariant [OF assms, where P = "\<lambda>c t. steady conn c"])
     (auto intro: steady_refl steady_trans copy_step_steady)

lemma realloc_prefix:
  "realloc s mem k = (Some mem', s') \<Longrightarrow> n \<le> k \<Longrightarrow> n \<le> length mem \<Longrightarrow> take n mem' = take n mem"
  by (auto simp: realloc_def resize_def min_def split: list.splits if_splits)

lemma copy_plaintext_to_buffer_steady:
  assumes "copy_plaintext_to_buffer conn s = (r, c, s')"
  shows "steady conn c"
proof (cases "data_capacity conn - data_len conn < 1024")
  case False
  with assms obtain r' where "copy_loop conn s = (r', c, s')"
    by (auto simp: copy_plaintext_to_buffer_def split: prod.splits)
  then show ?thesis by (rule copy_loop_steady)
next
  case True
  obtain m s1 where ra: "realloc s (data_from_client conn) (unat (data_capacity conn * 2)) = (m, s1)"
    by force
  show ?thesis
  proof (cases m)
    case None
    with assms True ra show ?thesis
      by (auto simp: copy_plaintext_to_buffer_def steady_refl)
  next
    case (Some mem)
    with assms True ra obtain r' where
      cl: "copy_loop (conn\<lparr>data_from_client := mem\<rparr>) s1 = (r', c, s')"
      by (auto simp: copy_plaintext_to_buffer_def split: prod.splits)
    have "steady conn (conn\<lparr>data_from_client := mem\<rparr>)"
      unfolding steady_def
    proof (intro impI conjI)
      assume ok: "conn_ok conn"
      then have cap: "data_capacity conn = 2048" and len: "data_len conn < 2048"
        and blk: "2048 \<le> length (data_from_client conn)"
        by (auto simp: conn_ok_def)
      from len have l: "unat (data_len conn) < 2048" by unat_arith
      from ok realloc_length [OF ra [unfolded Some]]
      show "conn_ok (conn\<lparr>data_from_client := mem\<rparr>)" by (auto simp: conn_ok_def)
      have "take (unat (data_len conn)) mem = take (unat (data_len conn)) (data_from_client conn)"
        using l blk cap by (intro realloc_prefix [OF ra [unfolded Some]]) simp_all
      then show "stream (conn\<lparr>data_from_client := mem\<rparr>) = stream conn"
        by (simp add: stream_def accumulated_def)
    qed
    with copy_loop_steady [OF cl] show ?thesis by (rule steady_trans [rotated])
  qed
qed

lemma process_new_packets_stream:
  "rustls_connection_process_new_packets rc = (res, rc2)
     \<Longrightarrow> plain rc2 @ concat (map payload (packets rc2))
           = plain rc @ concat (map payload (packets rc))"
  by (auto simp: rustls_connection_process_new_packets_def split: list.splits packet.splits)

lemma do_read_steady:
  assumes "do_read conn s = (r, c, s')"
  shows "steady conn c"
  using assms
proof (cases rule: do_read_route)
  case (early p rc1 s1)
  with read_tls_engine [OF early(1)] show ?thesis by (simp add: steady_rconn)
next
  case (refused p rc1 s1 res rc2)
  with read_tls_engine [OF refused(1)] process_new_packets_stream [OF refused(2)]
  show ?thesis by (simp add: steady_rconn)
next
  case (copied p rc1 s1 res rc2 r3 s3)
  from read_tls_engine [OF copied(1)] process_new_packets_stream [OF copied(2)]
  have "steady conn (conn\<lparr>rconn := rc2\<rparr>)" by (simp add: steady_rconn)
  then show ?thesis using copy_plaintext_to_buffer_steady [OF copied(3)] by (rule steady_trans)
qed

lemma read_loop_steady:
  assumes "read_loop conn s = (x, c, s')" shows "steady conn c"
  by (rule read_loop_invariant [OF assms, where P = "\<lambda>c t. steady conn c"])
     (auto intro: steady_refl steady_trans do_read_steady)

lemma read_phase_steady: "read_phase b conn s = (x, c, s') \<Longrightarrow> steady conn c"
  by (auto simp: read_phase_def steady_refl read_loop_steady split: if_splits)

lemma write_step_steady:
  assumes "write_step conn s = (x, c, s')" shows "steady conn c"
proof -
  from assms have "data_len c = data_len conn \<and> data_capacity c = data_capacity conn
      \<and> data_from_client c = data_from_client conn
      \<and> plain (rconn c) = plain (rconn conn) \<and> packets (rconn c) = packets (rconn conn)"
    by (auto simp: write_step_def rustls_connection_write_tls_def
             split: if_splits prod.splits)
  then show ?thesis by (auto simp: steady_def stream_def accumulated_def conn_ok_def)
qed

lemma write_phase_steady: "write_phase b conn s = (x, c, s') \<Longrightarrow> steady conn c"
  by (auto simp: write_phase_def steady_refl write_step_steady split: if_splits)

lemma reply_step_steady:
  assumes "reply_step st conn = (x, st', c)" shows "steady conn c"
proof -
  from assms have "data_len c = data_len conn \<and> data_capacity c = data_capacity conn
      \<and> (data_from_client c = data_from_client conn
         \<or> data_from_client c = (data_from_client conn)[unat (data_len conn) := 0])
      \<and> plain (rconn c) = plain (rconn conn) \<and> packets (rconn c) = packets (rconn conn)"
    by (auto simp: reply_step_def request_is_finished_def send_response_def
                   rustls_connection_write_def Let_def
             split: if_splits prod.splits)
  then show ?thesis by (auto simp: steady_def stream_def accumulated_def conn_ok_def)
qed

lemma handle_iter_steady:
  assumes "handle_iter sel st conn s = (x, st', c, s')"
  shows "steady conn c"
proof (cases sel)
  case (SelectFail e)
  with assms show ?thesis by (auto simp: handle_iter_def steady_refl)
next
  case (SelectReady r w)
  let ?rs = "rustls_connection_wants_read (rconn conn) \<and> r"
  let ?ws = "rustls_connection_wants_write (rconn conn) \<and> w"
  let ?s0 = "if \<not> ?rs \<and> \<not> ?ws then s\<lparr>errno := EINVAL\<rparr> else s"
  obtain x1 c1 s1 where rp: "read_phase ?rs conn ?s0 = (x1, c1, s1)"
    by (cases "read_phase ?rs conn ?s0") auto
  note p1 = read_phase_steady [OF rp]
  obtain x2 c2 s2 where wp: "write_phase ?ws c1 s1 = (x2, c2, s2)"
    by (cases "write_phase ?ws c1 s1") auto
  have p2: "steady conn c2"
    using p1 write_phase_steady [OF wp] by (rule steady_trans)
  obtain x3 st3 c3 where rs3: "reply_step st c2 = (x3, st3, c3)"
    by (cases "reply_step st c2") auto
  have p3: "steady conn c3"
    using p2 reply_step_steady [OF rs3] by (rule steady_trans)
  have "handle_iter sel st conn s =
       (case x1 of Continue \<Rightarrow>
         (case x2 of Continue \<Rightarrow> (x3, st3, c3, s2) | _ \<Rightarrow> (x2, st, c2, s2))
       | _ \<Rightarrow> (x1, st, c1, s1))"
    unfolding SelectReady handle_iter_def Let_def select_outcome.case rp prod.case
    by (cases x1; cases x2) (simp_all add: wp rs3)
  with assms have "c = c1 \<or> c = c2 \<or> c = c3"
    by (cases x1; cases x2) simp_all
  with p1 p2 p3 show ?thesis by blast
qed

lemma handle_conn_loop_steady:
  "handle_conn_loop sels st conn s = (x, st', c, s') \<Longrightarrow> steady conn c"
proof (induction sels arbitrary: st conn s)
  case Nil
  then show ?case by (simp add: steady_refl)
next
  case (Cons sel sels)
  obtain x1 st1 c1 s1 where it: "handle_iter sel st conn s = (x1, st1, c1, s1)"
    by (cases "handle_iter sel st conn s") auto
  note p1 = handle_iter_steady [OF it]
  show ?case
  proof (cases "x1 = Continue")
    case True
    with Cons.prems it have "handle_conn_loop sels st1 c1 s1 = (x, st', c, s')" by simp
    from p1 Cons.IH [OF this] show ?thesis by (rule steady_trans)
  next
    case False
    with Cons.prems it have "c = c1" by (cases x1) simp_all
    with p1 show ?thesis by simp
  qed
qed

lemma handle_conn_steady:
  assumes "handle_conn sels conn s = (x, st, c, s')" shows "steady conn c"
proof -
  obtain x0 st0 c0 s0 where l: "handle_conn_loop sels READING_REQUEST conn s = (x0, st0, c0, s0)"
    by (cases "handle_conn_loop sels READING_REQUEST conn s") auto
  with assms have "c = c0" by (cases x0) (auto simp: handle_conn_def Let_def)
  with handle_conn_loop_steady [OF l] show ?thesis by simp
qed

subsection \<open>The output sink\<close>

lemma frame_eq_iff:
  "frame t = frame s \<longleftrightarrow>
     errno t = errno s \<and> sock_in t = sock_in s \<and> sock_out t = sock_out s
     \<and> sock_sent t = sock_sent s \<and> heap t = heap s \<and> closed t = closed s"
  by (cases s; cases t) (auto simp: frame_def)

lemma stdout_write_good:
  assumes "sink_good s" and "buf \<noteq> []" and "stdout_write s buf = (m, s')"
  shows "0 < m \<and> m \<le> int (length buf) \<and> sink_good s' \<and> frame s' = frame s"
  using assms
  by (auto simp: stdout_write_def sink_good_def frame_eq_iff split: list.splits wr.splits)

lemma write_all_good:
  assumes "sink_good s" and "nat n \<le> length buf" and "write_all s buf n = (r, s')"
  shows "r = 0 \<and> sink_good s' \<and> frame s' = frame s"
  using assms
proof (induction s buf n rule: write_all.induct)
  case (1 s buf n)
  show ?case
  proof (cases "n > 0")
    case False
    with "1.prems" show ?thesis by (simp add: write_all.simps [of s])
  next
    case True
    obtain m s1 where w: "stdout_write s (take (nat n) buf) = (m, s1)" by force
    from True "1.prems"(2) have ne: "take (nat n) buf \<noteq> []" by auto
    from stdout_write_good [OF "1.prems"(1) ne w]
    have m: "0 < m" "m \<le> n" and g1: "sink_good s1" and f1: "frame s1 = frame s"
      using "1.prems"(2) True by auto
    from "1.prems"(3) True w m have rec: "write_all s1 buf (n - m) = (r, s')"
      by (simp add: write_all.simps [of s])
    have "nat (n - m) \<le> length buf" using "1.prems"(2) m by simp
    from "1.IH" [OF True w [symmetric] _ _ g1 this rec] m f1 show ?thesis by simp
  qed
qed

lemma fed_refl: "fed t t"
  by (simp add: fed_def)

lemma fed_same: "stdout_wr t' = stdout_wr t \<Longrightarrow> fed t t'"
  by (simp add: fed_def)

lemma fed_trans:
  assumes "fed t t1" and "fed t1 t2" shows "fed t t2"
proof -
  from assms obtain cs ds where "stdout_wr t = cs @ stdout_wr t1" "list_all accepting cs"
    "stdout_wr t1 = ds @ stdout_wr t2" "list_all accepting ds"
    by (auto simp: fed_def)
  then have "stdout_wr t = (cs @ ds) @ stdout_wr t2 \<and> list_all accepting (cs @ ds)" by simp
  then show ?thesis unfolding fed_def by blast
qed

lemma fed_choked:
  assumes "fed t t1" and "choked t1 t2" shows "choked t t2"
proof -
  from assms obtain cs ds w where "stdout_wr t = cs @ stdout_wr t1" "list_all accepting cs"
    "stdout_wr t1 = ds @ w # stdout_wr t2" "list_all accepting ds" "\<not> accepting w"
    by (auto simp: fed_def choked_def)
  then have "stdout_wr t = (cs @ ds) @ w # stdout_wr t2 \<and> list_all accepting (cs @ ds)
             \<and> \<not> accepting w"
    by simp
  then show ?thesis unfolding choked_def by blast
qed

lemma choked_same: "choked t t1 \<Longrightarrow> stdout_wr t2 = stdout_wr t1 \<Longrightarrow> choked t t2"
  by (simp add: choked_def)

lemma choked_bad: "choked t t' \<Longrightarrow> \<not> sink_good t"
  by (auto simp: choked_def sink_good_def)

lemma choked_not_fed:
  assumes "choked t t'" shows "\<not> fed t t'"
proof
  assume "fed t t'"
  with assms obtain cs ds w where a: "stdout_wr t = cs @ stdout_wr t'" "list_all accepting cs"
    and b: "stdout_wr t = ds @ w # stdout_wr t'" "\<not> accepting w"
    by (auto simp: fed_def choked_def)
  from a(1) b(1) have "cs = ds @ [w]" by simp
  with a(2) b(2) show False by simp
qed

lemma stdout_write_fed:
  assumes "buf \<noteq> []" and "stdout_write t buf = (m, t')"
  shows "(0 < m \<and> m \<le> int (length buf) \<and> fed t t' \<and> frame t' = frame t)
         \<or> (m \<le> 0 \<and> choked t t')"
proof (cases "stdout_wr t")
  case Nil
  with assms show ?thesis
    by (auto simp: stdout_write_def fed_def frame_eq_iff)
next
  case (Cons w rest)
  with assms have rest: "stdout_wr t' = rest"
    by (cases w) (auto simp: stdout_write_def)
  show ?thesis
  proof (cases "accepting w")
    case True
    then obtain k where w: "w = WrCount k" "0 < k" by (cases w) auto
    have "stdout_wr t = [w] @ stdout_wr t' \<and> list_all accepting [w]"
      using Cons rest True by simp
    then have "fed t t'" unfolding fed_def by blast
    with assms Cons w show ?thesis
      by (auto simp: stdout_write_def frame_eq_iff)
  next
    case False
    have "stdout_wr t = [] @ w # stdout_wr t' \<and> list_all accepting [] \<and> \<not> accepting w"
      using Cons rest False by simp
    then have "choked t t'" unfolding choked_def by blast
    moreover from assms Cons False have "m \<le> 0"
      by (cases w) (auto simp: stdout_write_def)
    ultimately show ?thesis by simp
  qed
qed

lemma write_all_fed:
  assumes "nat n \<le> length buf" and "write_all t buf n = (r, t')"
  shows "(r = 0 \<and> fed t t' \<and> frame t' = frame t) \<or> (r \<noteq> 0 \<and> choked t t')"
  using assms
proof (induction t buf n rule: write_all.induct)
  case (1 t buf n)
  show ?case
  proof (cases "n > 0")
    case False
    with "1.prems" show ?thesis by (simp add: write_all.simps [of t] fed_refl)
  next
    case True
    obtain m t1 where w: "stdout_write t (take (nat n) buf) = (m, t1)" by force
    from True "1.prems"(1) have ne: "take (nat n) buf \<noteq> []" by auto
    from stdout_write_fed [OF ne w]
    show ?thesis
    proof
      assume bad: "m \<le> 0 \<and> choked t t1"
      then have "m < 0 \<or> m = 0" by auto
      with "1.prems"(2) True w have "r = 1 \<and> t' = t1"
        by (auto simp: write_all.simps [of t])
      with bad show ?thesis by simp
    next
      assume good: "0 < m \<and> m \<le> int (length (take (nat n) buf)) \<and> fed t t1
                    \<and> frame t1 = frame t"
      with "1.prems"(1) True have m: "0 < m" "m \<le> n" by auto
      from "1.prems"(2) True w m have rec: "write_all t1 buf (n - m) = (r, t')"
        by (simp add: write_all.simps [of t])
      have "nat (n - m) \<le> length buf" using "1.prems"(1) m by simp
      from "1.IH" [OF True w [symmetric] _ _ this rec] m good show ?thesis
        by (auto intro: fed_trans fed_choked)
    qed
  qed
qed

lemma int_of_size_t_small:
  assumes "k < 2 ^ 31"
  shows "int_of_size_t (of_nat k) = int k"
proof -
  from assms have "k < 2 ^ 64" by (rule less_trans) simp
  then have "(ucast (of_nat k :: 64 word) :: 32 word) = of_nat k"
    by (simp add: unsigned_of_nat take_bit_nat_eq_self)
  moreover have "sint (of_nat k :: 32 word) = int k"
    using assms by (simp add: signed_of_nat signed_take_bit_int_eq_self)
  ultimately show ?thesis by (simp add: int_of_size_t_def)
qed

lemma follows_refl: "twin s t \<Longrightarrow> follows t s t"
  by (simp add: follows_def fed_refl)

lemma sock_read_twin:
  assumes "twin s t" and "sock_read s len = (r, s')" and "sock_read t len = (r2, t')"
  shows "r2 = r \<and> follows t s' t'"
proof -
  from assms have "r2 = r \<and> twin s' t' \<and> stdout_wr t' = stdout_wr t"
    by (auto simp: sock_read_def twin_def sink_good_def frame_eq_iff
             split: list.splits rd.splits)
  then show ?thesis by (simp add: follows_def fed_same)
qed

lemma sock_write_twin:
  assumes "twin s t" and "sock_write s buf = (r, s')" and "sock_write t buf = (r2, t')"
  shows "r2 = r \<and> follows t s' t'"
proof -
  from assms have "r2 = r \<and> twin s' t' \<and> stdout_wr t' = stdout_wr t"
    by (auto simp: sock_write_def twin_def sink_good_def frame_eq_iff
             split: list.splits wr.splits)
  then show ?thesis by (simp add: follows_def fed_same)
qed

lemma realloc_twin:
  assumes "twin s t" and "realloc s mem k = (r, s')" and "realloc t mem k = (r2, t')"
  shows "r2 = r \<and> follows t s' t'"
proof -
  from assms have "r2 = r \<and> twin s' t' \<and> stdout_wr t' = stdout_wr t"
    by (auto simp: realloc_def twin_def sink_good_def frame_eq_iff
             split: list.splits)
  then show ?thesis by (simp add: follows_def fed_same)
qed

lemma copy_step_twin:
  assumes tw: "twin s t" and ok: "conn_ok conn"
    and st1: "copy_step conn s = (x, c, s')" and st2: "copy_step conn t = (y, d, t')"
  shows "(y = x \<and> d = c \<and> follows t s' t') \<or> (choked t t' \<and> y = Some CRUSTLS_DEMO_ERROR)"
proof -
  let ?off = "unat (data_len conn)"
  obtain p rc' where rd0:
    "rustls_connection_read (rconn conn) (data_capacity conn - data_len conn - 1) = (p, rc')"
    by (meson surj_pair)
  obtain res bs where p: "p = (res, bs)" by force
  note rd = rd0 [unfolded p]
  let ?n = "of_nat (length bs) :: size_t"
  let ?c1 = "conn\<lparr>rconn := rc', data_from_client := mem_write (data_from_client conn) ?off bs\<rparr>"
  let ?c2 = "?c1\<lparr>data_len := data_len ?c1 + ?n\<rparr>"
  let ?buf = "drop ?off (data_from_client ?c2)"
  show ?thesis
  proof (cases "res = RUSTLS_RESULT_OK \<and> ?n \<noteq> 0")
    case False
    with st1 st2 rd have "y = x \<and> d = c \<and> s' = s \<and> t' = t"
      by (auto simp: copy_step_def Let_def split: if_splits)
    with tw show ?thesis by (simp add: follows_def fed_refl)
  next
    case True
    obtain r1 s1 where w1: "write_all s ?buf (int_of_size_t ?n) = (r1, s1)" by force
    obtain r2 t1 where w2: "write_all t ?buf (int_of_size_t ?n) = (r2, t1)" by force
    from ok have cap: "data_capacity conn = 2048" and len: "data_len conn < 2048"
      and blk: "2048 \<le> length (data_from_client conn)"
      by (auto simp: conn_ok_def)
    from rustls_connection_read_bound [OF rd] cap unat_avail [OF len]
    have bs: "length bs \<le> 2047 - unat (data_len conn)" by simp
    then have small: "length bs < 2 ^ 31" by simp
    from len have l: "?off < 2048" by unat_arith
    have fits: "nat (int_of_size_t ?n) \<le> length ?buf"
      using bs l blk by (simp add: int_of_size_t_small [OF small] mem_write_def)
    from tw have gs: "sink_good s" and fr: "frame t = frame s" by (auto simp: twin_def)
    from write_all_good [OF gs fits w1]
    have r1: "r1 = 0" and g1: "sink_good s1" and f1: "frame s1 = frame s" by auto
    from st1 rd True w1 r1 have x: "x = None" "c = ?c2" "s' = s1"
      by (auto simp: copy_step_def Let_def)
    show ?thesis
    proof (cases "r2 = 0")
      case True
      with st2 rd \<open>res = RUSTLS_RESULT_OK \<and> ?n \<noteq> 0\<close> w2 have y: "y = None" "d = ?c2" "t' = t1"
        by (auto simp: copy_step_def Let_def)
      from write_all_fed [OF fits w2] True fr f1 g1
      have "follows t s1 t1" by (simp add: follows_def twin_def)
      with x y show ?thesis by simp
    next
      case False
      with st2 rd \<open>res = RUSTLS_RESULT_OK \<and> ?n \<noteq> 0\<close> w2
      have "y = Some CRUSTLS_DEMO_ERROR" and "t' = t1"
        by (auto simp: copy_step_def Let_def)
      moreover have "choked t t1"
        using write_all_fed [OF fits w2] False by auto
      ultimately show ?thesis by simp
    qed
  qed
qed


lemma follows_trans: "follows t s1 t1 \<Longrightarrow> follows t1 s2 t2 \<Longrightarrow> follows t s2 t2"
  by (auto simp: follows_def intro: fed_trans)

lemma follows_twin: "follows t s' t' \<Longrightarrow> twin s' t'"
  by (simp add: follows_def)

lemma follows_choked: "follows t s1 t1 \<Longrightarrow> choked t1 t' \<Longrightarrow> choked t t'"
  by (auto simp: follows_def intro: fed_choked)

lemma copy_loop_twin:
  assumes "twin s t" and "conn_ok conn"
    and "copy_loop conn s = (r, c, s')" and "copy_loop conn t = (r2, d, t')"
  shows "(r2 = r \<and> d = c \<and> follows t s' t') \<or> (choked t t' \<and> r2 = CRUSTLS_DEMO_ERROR)"
  using assms
proof (induction conn s arbitrary: t rule: copy_loop.induct)
  case (1 conn s)
  obtain x c1 s1 where st1: "copy_step conn s = (x, c1, s1)"
    by (cases "copy_step conn s") auto
  obtain y d1 t1 where st2: "copy_step conn t = (y, d1, t1)"
    by (cases "copy_step conn t") auto
  from copy_step_twin [OF "1.prems"(1,2) st1 st2]
  show ?case
  proof
    assume bad: "choked t t1 \<and> y = Some CRUSTLS_DEMO_ERROR"
    with "1.prems"(4) st2 have "r2 = CRUSTLS_DEMO_ERROR \<and> t' = t1"
      by (simp add: copy_loop.simps [of conn t])
    with bad show ?thesis by simp
  next
    assume same: "y = x \<and> d1 = c1 \<and> follows t s1 t1"
    show ?thesis
    proof (cases x)
      case (Some a)
      with "1.prems"(3,4) st1 st2 same show ?thesis
        by (simp add: copy_loop.simps [of conn])
    next
      case None
      with "1.prems"(3,4) st1 st2 same
      have l1: "copy_loop c1 s1 = (r, c, s')" and l2: "copy_loop c1 t1 = (r2, d, t')"
        by (simp_all add: copy_loop.simps [of conn])
      have ok1: "conn_ok c1" using copy_step_ok [OF st1 "1.prems"(2)] .
      from same have tw1: "twin s1 t1" by (auto dest: follows_twin)
      from "1.IH" [OF st1 [symmetric] None refl tw1 ok1 l1 l2] same
      show ?thesis by (auto intro: follows_trans follows_choked)
    qed
  qed
qed

lemma copy_plaintext_to_buffer_twin:
  assumes tw: "twin s t" and ok: "conn_ok conn"
    and c1: "copy_plaintext_to_buffer conn s = (r, c, s')"
    and c2: "copy_plaintext_to_buffer conn t = (r2, d, t')"
  shows "(r2 = r \<and> d = c \<and> follows t s' t')
         \<or> (choked t t' \<and> r2 = Some CRUSTLS_DEMO_ERROR)"
proof (cases "data_capacity conn - data_len conn < 1024")
  case False
  with c1 c2 obtain a b where "copy_loop conn s = (a, c, s')" "r = Some a"
    "copy_loop conn t = (b, d, t')" "r2 = Some b"
    by (auto simp: copy_plaintext_to_buffer_def split: prod.splits)
  with copy_loop_twin [OF tw ok this(1,3)] show ?thesis by auto
next
  case True
  let ?k = "unat (data_capacity conn * 2)"
  obtain m s1 where ra: "realloc s (data_from_client conn) ?k = (m, s1)" by force
  obtain m2 t1 where rb: "realloc t (data_from_client conn) ?k = (m2, t1)" by force
  from realloc_twin [OF tw ra rb] have m2: "m2 = m" and fo: "follows t s1 t1" by auto
  show ?thesis
  proof (cases m)
    case None
    with c1 c2 True ra rb m2 fo show ?thesis
      by (auto simp: copy_plaintext_to_buffer_def)
  next
    case (Some mem)
    let ?conn = "conn\<lparr>data_from_client := mem\<rparr>"
    from c1 c2 True ra rb m2 Some obtain a b where
      l: "copy_loop ?conn s1 = (a, c, s')" "copy_loop ?conn t1 = (b, d, t')"
      and rr: "r = Some a" "r2 = Some b"
      by (auto simp: copy_plaintext_to_buffer_def split: prod.splits)
    have ok': "conn_ok ?conn"
      using ok realloc_length [OF ra [unfolded Some]] by (auto simp: conn_ok_def)
    from copy_loop_twin [OF follows_twin [OF fo] ok' l] rr fo
    show ?thesis by (auto intro: follows_trans follows_choked)
  qed
qed


lemma twin_errno: "twin s t \<Longrightarrow> errno t = errno s"
  by (simp add: twin_def frame_eq_iff)

lemma read_cb_twin:
  assumes tw: "twin s t" and "read_cb conn s len = (r, s')" and "read_cb conn t len = (r2, t')"
  shows "r2 = r \<and> follows t s' t'"
proof -
  obtain a s1 where r1: "sock_read s len = (a, s1)" by (meson surj_pair)
  obtain b t1 where r2: "sock_read t len = (b, t1)" by (meson surj_pair)
  from sock_read_twin [OF tw r1 r2] have ab: "b = a" and fo: "follows t s1 t1" by auto
  from fo have "errno t1 = errno s1" by (auto dest: follows_twin twin_errno)
  with assms(2,3) r1 r2 ab fo show ?thesis
    by (auto simp: read_cb_def split: prod.splits if_splits)
qed

lemma write_cb_twin:
  assumes tw: "twin s t" and "write_cb conn s buf = (r, s')" and "write_cb conn t buf = (r2, t')"
  shows "r2 = r \<and> follows t s' t'"
proof -
  obtain a s1 where r1: "sock_write s buf = (a, s1)" by (meson surj_pair)
  obtain b t1 where r2: "sock_write t buf = (b, t1)" by (meson surj_pair)
  from sock_write_twin [OF tw r1 r2] have ab: "b = a" and fo: "follows t s1 t1" by auto
  from fo have "errno t1 = errno s1" by (auto dest: follows_twin twin_errno)
  with assms(2,3) r1 r2 ab fo show ?thesis
    by (auto simp: write_cb_def split: prod.splits if_splits)
qed

lemma read_tls_twin:
  assumes tw: "twin s t"
    and "rustls_connection_read_tls rc (read_cb conn) s = (a, rc1, s1)"
    and "rustls_connection_read_tls rc (read_cb conn) t = (b, rc2, t1)"
  shows "b = a \<and> rc2 = rc1 \<and> follows t s1 t1"
proof -
  obtain p s0 where r1: "read_cb conn s (read_size rc) = (p, s0)" by (meson surj_pair)
  obtain q t0 where r2: "read_cb conn t (read_size rc) = (q, t0)" by (meson surj_pair)
  from read_cb_twin [OF tw r1 r2] have "q = p" and "follows t s0 t0" by auto
  with assms(2,3) r1 r2 show ?thesis
    by (auto simp: rustls_connection_read_tls_def split: prod.splits if_splits)
qed

lemma write_tls_twin:
  assumes tw: "twin s t"
    and "rustls_connection_write_tls rc (write_cb conn) s = (a, rc1, s1)"
    and "rustls_connection_write_tls rc (write_cb conn) t = (b, rc2, t1)"
  shows "b = a \<and> rc2 = rc1 \<and> follows t s1 t1"
proof (cases "tls_out rc = []")
  case True
  with assms show ?thesis
    by (auto simp: rustls_connection_write_tls_def follows_def fed_refl)
next
  case False
  obtain p s0 where r1: "write_cb conn s (tls_out rc) = (p, s0)" by (meson surj_pair)
  obtain q t0 where r2: "write_cb conn t (tls_out rc) = (q, t0)" by (meson surj_pair)
  from write_cb_twin [OF tw r1 r2] have "q = p" and "follows t s0 t0" by auto
  with assms(2,3) r1 r2 False show ?thesis
    by (auto simp: rustls_connection_write_tls_def split: prod.splits if_splits)
qed

lemma do_read_twin:
  assumes tw: "twin s t" and ok: "conn_ok conn"
    and d1: "do_read conn s = (r, c, s')" and d2: "do_read conn t = (r2, d, t')"
  shows "(r2 = r \<and> d = c \<and> follows t s' t')
         \<or> (choked t t' \<and> r2 = Some CRUSTLS_DEMO_ERROR)"
proof -
  obtain p rc1 s1 where
    rt0: "rustls_connection_read_tls (rconn conn) (read_cb conn) s = (p, rc1, s1)"
    by (cases "rustls_connection_read_tls (rconn conn) (read_cb conn) s") auto
  obtain err n where p: "p = (err, n)" by (meson surj_pair)
  note rt = rt0 [unfolded p]
  obtain q rc1' t1 where
    rt': "rustls_connection_read_tls (rconn conn) (read_cb conn) t = (q, rc1', t1)"
    by (cases "rustls_connection_read_tls (rconn conn) (read_cb conn) t") auto
  from read_tls_twin [OF tw rt rt'] have q: "q = (err, n)" "rc1' = rc1" and f1: "follows t s1 t1"
    by auto
  note rtt = rt' [unfolded q]
  obtain res rc2 where pn: "rustls_connection_process_new_packets rc1 = (res, rc2)" by (meson surj_pair)
  show ?thesis
  proof (cases "err = EAGAIN \<or> err = EWOULDBLOCK \<or> err \<noteq> 0 \<or> n = 0
                  \<or> res \<noteq> RUSTLS_RESULT_OK")
    case True
    with d1 d2 rt rtt pn have "r2 = r \<and> d = c \<and> s' = s1 \<and> t' = t1"
      by (auto simp: do_read_def Let_def split: if_splits)
    with f1 show ?thesis by simp
  next
    case False
    let ?conn = "conn\<lparr>rconn := rc2\<rparr>"
    obtain r3 c3 s3 where cp: "copy_plaintext_to_buffer ?conn s1 = (r3, c3, s3)"
      by (cases "copy_plaintext_to_buffer ?conn s1") auto
    obtain r3' c3' t3 where cp': "copy_plaintext_to_buffer ?conn t1 = (r3', c3', t3)"
      by (cases "copy_plaintext_to_buffer ?conn t1") auto
    have ok2: "conn_ok ?conn" using ok by simp
    from copy_plaintext_to_buffer_twin [OF follows_twin [OF f1] ok2 cp cp']
    show ?thesis
    proof
      assume bad: "choked t1 t3 \<and> r3' = Some CRUSTLS_DEMO_ERROR"
      with d2 rtt pn False cp' have "r2 = Some CRUSTLS_DEMO_ERROR \<and> t' = t3"
        by (simp add: do_read_def Let_def)
      with bad follows_choked [OF f1] show ?thesis by simp
    next
      assume "r3' = r3 \<and> c3' = c3 \<and> follows t1 s3 t3"
      then have same: "r3' = r3" "c3' = c3" and f3: "follows t1 s3 t3" by auto
      note f13 = follows_trans [OF f1 f3]
      show ?thesis
      proof (cases "r3 = Some CRUSTLS_DEMO_CLOSE_NOTIFY")
        case False
        with d1 d2 rt rtt pn \<open>\<not> (err = EAGAIN \<or> _)\<close> cp cp' same
        have "r2 = r \<and> d = c \<and> s' = s3 \<and> t' = t3"
          by (cases r3) (auto simp: do_read_def Let_def)
        with f13 show ?thesis by simp
      next
        case True
        obtain a s4 where sr: "sock_read s3 2048 = (a, s4)"
          by (cases "sock_read s3 2048") auto
        obtain b t4 where sr': "sock_read t3 2048 = (b, t4)"
          by (cases "sock_read t3 2048") auto
        from sock_read_twin [OF follows_twin [OF f3] sr sr']
        have ba: "b = a" and f4: "follows t3 s4 t4" by auto
        from f4 have e: "errno t4 = errno s4" by (auto dest: follows_twin twin_errno)
        from d1 d2 rt rtt pn \<open>\<not> (err = EAGAIN \<or> _)\<close> cp cp' same True sr sr' ba e
        have "r2 = r \<and> d = c \<and> s' = s4 \<and> t' = t4"
          by (cases a) (auto simp: do_read_def Let_def split: if_splits)
        with follows_trans [OF f13 f4] show ?thesis by simp
      qed
    qed
  qed
qed


lemma do_read_ok: "do_read conn s = (r, c, s') \<Longrightarrow> conn_ok conn \<Longrightarrow> conn_ok c"
  by (drule do_read_keeps) (simp add: keeps_def)

lemma read_loop_twin:
  assumes "twin s t" and "conn_ok conn"
    and "read_loop conn s = (x, c, s')" and "read_loop conn t = (y, d, t')"
  shows "(y = x \<and> d = c \<and> follows t s' t') \<or> (choked t t' \<and> y = Cleanup 1)"
  using assms
proof (induction conn s arbitrary: t rule: read_loop.induct)
  case (1 conn s)
  obtain r c1 s1 where d1: "do_read conn s = (r, c1, s1)"
    by (cases "do_read conn s") auto
  obtain r2 d1' t1 where d2: "do_read conn t = (r2, d1', t1)"
    by (cases "do_read conn t") auto
  from do_read_twin [OF "1.prems"(1,2) d1 d2]
  show ?case
  proof
    assume bad: "choked t t1 \<and> r2 = Some CRUSTLS_DEMO_ERROR"
    with "1.prems"(4) d2 have "y = Cleanup 1 \<and> t' = t1"
      by (simp add: read_loop.simps [of conn t])
    with bad show ?thesis by simp
  next
    assume same: "r2 = r \<and> d1' = c1 \<and> follows t s1 t1"
    show ?thesis
    proof (cases "r = Some CRUSTLS_DEMO_OK")
      case False
      with "1.prems"(3,4) d1 d2 same show ?thesis
        by (auto simp: read_loop.simps [of conn] split: option.splits if_splits)
    next
      case True
      with "1.prems"(3,4) d1 d2 same
      have l1: "read_loop c1 s1 = (x, c, s')" and l2: "read_loop c1 t1 = (y, d, t')"
        by (simp_all add: read_loop.simps [of conn])
      have ok1: "conn_ok c1" using do_read_ok [OF d1 "1.prems"(2)] .
      from same have tw1: "twin s1 t1" by (auto dest: follows_twin)
      from "1.IH" [OF d1 [symmetric] _ refl _ _ _ tw1 ok1 l1 l2, of CRUSTLS_DEMO_OK] True same
      show ?thesis by (auto intro: follows_trans follows_choked)
    qed
  qed
qed

lemma write_step_twin:
  assumes tw: "twin s t"
    and w1: "write_step conn s = (x, c, s')" and w2: "write_step conn t = (y, d, t')"
  shows "y = x \<and> d = c \<and> follows t s' t'"
proof -
  obtain a rc1 s1 where
    a: "rustls_connection_write_tls (rconn conn) (write_cb conn) s = (a, rc1, s1)"
    by (cases "rustls_connection_write_tls (rconn conn) (write_cb conn) s") auto
  obtain b rc2 t1 where
    b: "rustls_connection_write_tls (rconn conn) (write_cb conn) t = (b, rc2, t1)"
    by (cases "rustls_connection_write_tls (rconn conn) (write_cb conn) t") auto
  from write_tls_twin [OF tw a b] have "b = a" "rc2 = rc1" "follows t s1 t1" by auto
  with w1 w2 a b show ?thesis
    by (cases a) (auto simp: write_step_def split: if_splits)
qed


lemma twin_errno_update: "twin s t \<Longrightarrow> follows t (s\<lparr>errno := e\<rparr>) (t\<lparr>errno := e\<rparr>)"
  by (simp add: twin_def follows_def sink_good_def frame_eq_iff fed_same)

lemma handle_iter_twin:
  assumes tw: "twin s t" and ok: "conn_ok conn"
    and h1: "handle_iter sel st conn s = (x, st', c, s')"
    and h2: "handle_iter sel st conn t = (y, st2, d, t')"
  shows "(y = x \<and> st2 = st' \<and> d = c \<and> follows t s' t') \<or> (choked t t' \<and> y = Cleanup 1)"
proof (cases sel)
  case (SelectFail e)
  with h1 h2 twin_errno_update [OF tw, of e] show ?thesis
    by (auto simp: handle_iter_def)
next
  case (SelectReady r w)
  let ?rs = "rustls_connection_wants_read (rconn conn) \<and> r"
  let ?ws = "rustls_connection_wants_write (rconn conn) \<and> w"
  let ?s0 = "if \<not> ?rs \<and> \<not> ?ws then s\<lparr>errno := EINVAL\<rparr> else s"
  let ?t0 = "if \<not> ?rs \<and> \<not> ?ws then t\<lparr>errno := EINVAL\<rparr> else t"
  have f0: "follows t ?s0 ?t0"
    using twin_errno_update [OF tw, of EINVAL] follows_refl [OF tw] by simp
  obtain x1 c1 s1 where rp: "read_phase ?rs conn ?s0 = (x1, c1, s1)"
    by (cases "read_phase ?rs conn ?s0") auto
  obtain y1 d1 t1 where rp': "read_phase ?rs conn ?t0 = (y1, d1, t1)"
    by (cases "read_phase ?rs conn ?t0") auto
  have h1': "handle_iter sel st conn s =
       (case x1 of Continue \<Rightarrow>
          (case write_phase ?ws c1 s1 of
             (Continue, c2, s2) \<Rightarrow>
               (case reply_step st c2 of (x, state', c3) \<Rightarrow> (x, state', c3, s2))
           | (x, c2, s2) \<Rightarrow> (x, st, c2, s2))
        | _ \<Rightarrow> (x1, st, c1, s1))"
    unfolding SelectReady handle_iter_def Let_def select_outcome.case rp prod.case
    by (cases x1) simp_all
  have h2': "handle_iter sel st conn t =
       (case y1 of Continue \<Rightarrow>
          (case write_phase ?ws d1 t1 of
             (Continue, c2, s2) \<Rightarrow>
               (case reply_step st c2 of (x, state', c3) \<Rightarrow> (x, state', c3, s2))
           | (x, c2, s2) \<Rightarrow> (x, st, c2, s2))
        | _ \<Rightarrow> (y1, st, d1, t1))"
    unfolding SelectReady handle_iter_def Let_def select_outcome.case rp' prod.case
    by (cases y1) simp_all
  have "(y1 = x1 \<and> d1 = c1 \<and> follows ?t0 s1 t1) \<or> (choked ?t0 t1 \<and> y1 = Cleanup 1)"
  proof (cases ?rs)
    case True
    with rp rp' have "read_loop conn ?s0 = (x1, c1, s1)" "read_loop conn ?t0 = (y1, d1, t1)"
      by (simp_all add: read_phase_def)
    from read_loop_twin [OF follows_twin [OF f0] ok this] show ?thesis .
  next
    case False
    with rp rp' follows_refl [OF follows_twin [OF f0]] show ?thesis
      by (auto simp: read_phase_def)
  qed
  then show ?thesis
  proof
    assume bad: "choked ?t0 t1 \<and> y1 = Cleanup 1"
    with h2 h2' have "y = Cleanup 1 \<and> t' = t1" by simp
    with bad follows_choked [OF f0] show ?thesis by simp
  next
    assume same: "y1 = x1 \<and> d1 = c1 \<and> follows ?t0 s1 t1"
    then have f1: "follows t s1 t1" using f0 by (auto intro: follows_trans)
    show ?thesis
    proof (cases "x1 = Continue")
      case False
      with h1 h1' h2 h2' same f1 show ?thesis by (cases x1) auto
    next
      case True
      obtain x2 c2 s2 where wp: "write_phase ?ws c1 s1 = (x2, c2, s2)"
        by (cases "write_phase ?ws c1 s1") auto
      obtain y2 d2 t2 where wp': "write_phase ?ws c1 t1 = (y2, d2, t2)"
        by (cases "write_phase ?ws c1 t1") auto
      have "y2 = x2 \<and> d2 = c2 \<and> follows t1 s2 t2"
      proof (cases ?ws)
        case True
        with wp wp' have "write_step c1 s1 = (x2, c2, s2)" "write_step c1 t1 = (y2, d2, t2)"
          by (simp_all add: write_phase_def)
        from write_step_twin [OF follows_twin [OF f1] this] show ?thesis .
      next
        case False
        with wp wp' follows_refl [OF follows_twin [OF f1]] show ?thesis
          by (auto simp: write_phase_def)
      qed
      then have w: "y2 = x2" "d2 = c2" and f2: "follows t s2 t2"
        using f1 by (auto intro: follows_trans)
      obtain x3 st3 c3 where rs: "reply_step st c2 = (x3, st3, c3)"
        by (cases "reply_step st c2") auto
      have "handle_iter sel st conn s =
              (if x2 = Continue then (x3, st3, c3, s2) else (x2, st, c2, s2))"
        unfolding h1' using True wp rs by (cases x2) simp_all
      with h1
      have a: "(x, st', c, s') = (if x2 = Continue then (x3, st3, c3, s2) else (x2, st, c2, s2))"
        by simp
      have "handle_iter sel st conn t =
              (if x2 = Continue then (x3, st3, c3, t2) else (x2, st, c2, t2))"
        unfolding h2' using True same wp' w rs by (cases x2) simp_all
      with h2
      have b: "(y, st2, d, t') = (if x2 = Continue then (x3, st3, c3, t2) else (x2, st, c2, t2))"
        by simp
      from a b f2 show ?thesis by (auto split: if_splits)
    qed
  qed
qed

lemma handle_conn_loop_twin:
  assumes "twin s t" and "conn_ok conn"
    and "handle_conn_loop sels st conn s = (x, st', c, s')"
    and "handle_conn_loop sels st conn t = (y, st2, d, t')"
  shows "(y = x \<and> st2 = st' \<and> d = c \<and> follows t s' t') \<or> (choked t t' \<and> y = Cleanup 1)"
  using assms
proof (induction sels arbitrary: st conn s t)
  case Nil
  then show ?case by (auto simp: follows_refl)
next
  case (Cons sel sels)
  obtain x1 st1 c1 s1 where i1: "handle_iter sel st conn s = (x1, st1, c1, s1)"
    by (cases "handle_iter sel st conn s") auto
  obtain y1 st1' d1 t1 where i2: "handle_iter sel st conn t = (y1, st1', d1, t1)"
    by (cases "handle_iter sel st conn t") auto
  from handle_iter_twin [OF Cons.prems(1,2) i1 i2]
  show ?case
  proof
    assume bad: "choked t t1 \<and> y1 = Cleanup 1"
    with Cons.prems(4) i2 have "y = Cleanup 1 \<and> t' = t1" by simp
    with bad show ?thesis by simp
  next
    assume same: "y1 = x1 \<and> st1' = st1 \<and> d1 = c1 \<and> follows t s1 t1"
    show ?thesis
    proof (cases "x1 = Continue")
      case False
      with Cons.prems(3,4) i1 i2 same show ?thesis by (cases x1) auto
    next
      case True
      with Cons.prems(3,4) i1 i2 same
      have l1: "handle_conn_loop sels st1 c1 s1 = (x, st', c, s')"
        and l2: "handle_conn_loop sels st1 c1 t1 = (y, st2, d, t')"
        by simp_all
      have ok1: "conn_ok c1"
        using handle_iter_progress [OF i1] Cons.prems(2) by (simp add: progress_def)
      from same have tw1: "twin s1 t1" by (auto dest: follows_twin)
      from Cons.IH [OF tw1 ok1 l1 l2] same show ?thesis
        by (auto intro: follows_trans follows_choked)
    qed
  qed
qed

lemma handle_conn_twin:
  assumes tw: "twin s t" and ok: "conn_ok conn"
    and h1: "handle_conn sels conn s = (x, st, c, s')"
    and h2: "handle_conn sels conn t = (y, st2, d, t')"
  shows "(y = x \<and> st2 = st \<and> d = c \<and> frame t' = frame s' \<and> fed t t')
         \<or> (choked t t' \<and> y = Cleanup 1)"
proof -
  obtain x0 st0 c0 s0 where l1: "handle_conn_loop sels READING_REQUEST conn s = (x0, st0, c0, s0)"
    by (cases "handle_conn_loop sels READING_REQUEST conn s") auto
  obtain y0 st0' d0 t0 where l2: "handle_conn_loop sels READING_REQUEST conn t = (y0, st0', d0, t0)"
    by (cases "handle_conn_loop sels READING_REQUEST conn t") auto
  from h1 l1 have r1: "x = x0 \<and> st = st0 \<and> c = c0
      \<and> s' = (case x0 of Cleanup ret \<Rightarrow> if fd conn > 0 then s0\<lparr>closed := closed s0 @ [fd conn]\<rparr> else s0
                | _ \<Rightarrow> s0)"
    by (cases x0) (auto simp: handle_conn_def Let_def)
  from h2 l2 have r2: "y = y0 \<and> st2 = st0' \<and> d = d0
      \<and> t' = (case y0 of Cleanup ret \<Rightarrow> if fd conn > 0 then t0\<lparr>closed := closed t0 @ [fd conn]\<rparr> else t0
                | _ \<Rightarrow> t0)"
    by (cases y0) (auto simp: handle_conn_def Let_def)
  from r2 have sink: "stdout_wr t' = stdout_wr t0" by (cases y0) auto
  from handle_conn_loop_twin [OF tw ok l1 l2]
  show ?thesis
  proof
    assume "choked t t0 \<and> y0 = Cleanup 1"
    with r2 choked_same [OF _ sink] show ?thesis by blast
  next
    assume same: "y0 = x0 \<and> st0' = st0 \<and> d0 = c0 \<and> follows t s0 t0"
    then have fr: "frame t0 = frame s0" and fd: "fed t t0" by (simp_all add: follows_def twin_def)
    from fr r1 r2 same have "frame t' = frame s'"
      by (cases x0) (auto simp: frame_eq_iff)
    moreover from fd fed_same [OF sink] have "fed t t'" by (rule fed_trans)
    ultimately show ?thesis using r1 r2 same by simp
  qed
qed

text \<open>
  Any two runs that differ in the sink only are compared through a third, whose sink has
  nothing scripted and takes everything.
\<close>

lemma twin_unscripted: "twin (s\<lparr>stdout_wr := []\<rparr>) s"
  by (simp add: twin_def sink_good_def frame_def)

lemma twin_unscripted_other: "frame t = frame s \<Longrightarrow> twin (s\<lparr>stdout_wr := []\<rparr>) t"
  by (simp add: twin_def sink_good_def frame_def)

lemma handle_conn_pair:
  assumes fr: "frame t = frame s" and ok: "conn_ok conn"
    and h1: "handle_conn sels conn s = (x, st, c, s')"
    and h2: "handle_conn sels conn t = (y, st2, d, t')"
  shows "(fed s s' \<and> fed t t' \<and> y = x \<and> st2 = st \<and> d = c \<and> frame t' = frame s')
         \<or> (choked s s' \<and> x = Cleanup 1)
         \<or> (choked t t' \<and> y = Cleanup 1)"
proof -
  let ?q = "s\<lparr>stdout_wr := []\<rparr>"
  obtain z stz cz q' where h0: "handle_conn sels conn ?q = (z, stz, cz, q')"
    by (cases "handle_conn sels conn ?q") auto
  from handle_conn_twin [OF twin_unscripted ok h0 h1]
       handle_conn_twin [OF twin_unscripted_other [OF fr] ok h0 h2]
  show ?thesis by auto
qed

lemma copy_plaintext_to_buffer_pair:
  assumes fr: "frame t = frame s" and ok: "conn_ok conn"
    and c1: "copy_plaintext_to_buffer conn s = (r, c, s')"
    and c2: "copy_plaintext_to_buffer conn t = (r2, d, t')"
  shows "(fed s s' \<and> fed t t' \<and> r2 = r \<and> d = c \<and> frame t' = frame s')
         \<or> (choked s s' \<and> r = Some CRUSTLS_DEMO_ERROR)
         \<or> (choked t t' \<and> r2 = Some CRUSTLS_DEMO_ERROR)"
proof -
  let ?q = "s\<lparr>stdout_wr := []\<rparr>"
  obtain z cz q' where c0: "copy_plaintext_to_buffer conn ?q = (z, cz, q')"
    by (cases "copy_plaintext_to_buffer conn ?q") auto
  from copy_plaintext_to_buffer_twin [OF twin_unscripted ok c0 c1]
       copy_plaintext_to_buffer_twin [OF twin_unscripted_other [OF fr] ok c0 c2]
  show ?thesis by (auto simp: follows_def twin_def)
qed

text \<open>
  C8 (as amended). Take two runs of \<open>handle_conn\<close> on the same connection (one within
  the bounds of \<open>conn_ok\<close>, as every connection of \<open>main\<close> is) whose environments differ
  in the sink only. In both runs the buffer, the engine's decrypted bytes and its
  undecrypted records together hold the same plaintext as at the start: no byte is
  dropped, whatever the sink does. And either every write the two runs performed on the
  sink took at least one byte, and then they have the same control outcome, exchange
  state and connection record and leave the same environment apart from the sink; or one
  of them performed a write on the sink that failed or took nothing, and that run ended
  at cleanup with \<open>ret = 1\<close>. The same holds of two calls of the drain step
  \<open>copy_plaintext_to_buffer\<close>, where the run whose write failed returns
  \<open>CRUSTLS_DEMO_ERROR\<close>.
\<close>

theorem sink_matters_only_by_failing:
  "(frame t = frame s \<and> conn_ok conn
      \<and> handle_conn sels conn s = (x, st, c, s')
      \<and> handle_conn sels conn t = (y, st2, d, t')
    \<longrightarrow> stream c = stream conn \<and> stream d = stream conn
        \<and> ((fed s s' \<and> fed t t' \<and> y = x \<and> st2 = st \<and> d = c \<and> frame t' = frame s')
           \<or> (choked s s' \<and> x = Cleanup 1)
           \<or> (choked t t' \<and> y = Cleanup 1)))
   \<and> (frame v = frame u \<and> conn_ok k
      \<and> copy_plaintext_to_buffer k u = (r, e, u')
      \<and> copy_plaintext_to_buffer k v = (r2, f, v')
    \<longrightarrow> stream e = stream k \<and> stream f = stream k
        \<and> ((fed u u' \<and> fed v v' \<and> r2 = r \<and> f = e \<and> frame v' = frame u')
           \<or> (choked u u' \<and> r = Some CRUSTLS_DEMO_ERROR)
           \<or> (choked v v' \<and> r2 = Some CRUSTLS_DEMO_ERROR)))"
proof (intro conjI impI; elim conjE)
  assume fr: "frame t = frame s" and ok: "conn_ok conn"
    and h1: "handle_conn sels conn s = (x, st, c, s')"
    and h2: "handle_conn sels conn t = (y, st2, d, t')"
  from handle_conn_steady [OF h1] ok show "stream c = stream conn" by (simp add: steady_def)
  from handle_conn_steady [OF h2] ok show "stream d = stream conn" by (simp add: steady_def)
  from handle_conn_pair [OF fr ok h1 h2]
  show "(fed s s' \<and> fed t t' \<and> y = x \<and> st2 = st \<and> d = c \<and> frame t' = frame s')
           \<or> (choked s s' \<and> x = Cleanup 1)
           \<or> (choked t t' \<and> y = Cleanup 1)" .
next
  assume fr: "frame v = frame u" and ok: "conn_ok k"
    and c1: "copy_plaintext_to_buffer k u = (r, e, u')"
    and c2: "copy_plaintext_to_buffer k v = (r2, f, v')"
  from copy_plaintext_to_buffer_steady [OF c1] ok show "stream e = stream k"
    by (simp add: steady_def)
  from copy_plaintext_to_buffer_steady [OF c2] ok show "stream f = stream k"
    by (simp add: steady_def)
  from copy_plaintext_to_buffer_pair [OF fr ok c1 c2]
  show "(fed u u' \<and> fed v v' \<and> r2 = r \<and> f = e \<and> frame v' = frame u')
           \<or> (choked u u' \<and> r = Some CRUSTLS_DEMO_ERROR)
           \<or> (choked v v' \<and> r2 = Some CRUSTLS_DEMO_ERROR)" .
qed

theorem sink_matters_only_by_failing_witness:
  "\<exists>x st c s' y st2 d t' r e u' r2 f v'.
     frame (hi_os\<lparr>stdout_wr := [WrFail EIO]\<rparr>) = frame (hi_os\<lparr>stdout_wr := [WrCount 1, WrCount 1]\<rparr>)
     \<and> conn_ok (new_conn 4 hi_engine)
     \<and> handle_conn [SelectReady True False] (new_conn 4 hi_engine)
          (hi_os\<lparr>stdout_wr := [WrCount 1, WrCount 1]\<rparr>) = (x, st, c, s')
     \<and> handle_conn [SelectReady True False] (new_conn 4 hi_engine)
          (hi_os\<lparr>stdout_wr := [WrFail EIO]\<rparr>) = (y, st2, d, t')
     \<and> x = Continue \<and> y = Cleanup 1
     \<and> choked (hi_os\<lparr>stdout_wr := [WrFail EIO]\<rparr>) t'
     \<and> stream d = stream (new_conn 4 hi_engine) \<and> stream (new_conn 4 hi_engine) = [104, 105]
     \<and> data_len d = 2
     \<and> frame (hi_os\<lparr>stdout_wr := [WrCount 1, WrCount 1]\<rparr>) = frame hi_os
     \<and> conn_ok (new_conn 4 (idle_engine\<lparr>plain := [104, 105]\<rparr>))
     \<and> copy_plaintext_to_buffer (new_conn 4 (idle_engine\<lparr>plain := [104, 105]\<rparr>)) hi_os
         = (r, e, u')
     \<and> copy_plaintext_to_buffer (new_conn 4 (idle_engine\<lparr>plain := [104, 105]\<rparr>))
          (hi_os\<lparr>stdout_wr := [WrCount 1, WrCount 1]\<rparr>) = (r2, f, v')
     \<and> r = Some CRUSTLS_DEMO_OK \<and> r2 = r \<and> f = e \<and> frame v' = frame u'
     \<and> stream e = [104, 105]"
proof -
  let ?s = "hi_os\<lparr>stdout_wr := [WrCount 1, WrCount 1]\<rparr>"
  let ?t = "hi_os\<lparr>stdout_wr := [WrFail EIO]\<rparr>"
  let ?conn = "new_conn 4 hi_engine"
  let ?k = "new_conn 4 (idle_engine\<lparr>plain := [104, 105]\<rparr>)"
  have fr: "frame ?t = frame ?s" and fr2: "frame ?s = frame hi_os" by (simp_all add: frame_def)
  have ok: "conn_ok ?conn" and ok2: "conn_ok ?k" by (simp_all add: conn_ok_def new_conn_def)
  obtain x st c s' where h1: "handle_conn [SelectReady True False] ?conn ?s = (x, st, c, s')"
    by (cases "handle_conn [SelectReady True False] ?conn ?s") auto
  obtain y st2 d t' where h2: "handle_conn [SelectReady True False] ?conn ?t = (y, st2, d, t')"
    by (cases "handle_conn [SelectReady True False] ?conn ?t") auto
  obtain r e u' where c1: "copy_plaintext_to_buffer ?k hi_os = (r, e, u')"
    by (cases "copy_plaintext_to_buffer ?k hi_os") auto
  obtain r2 f v' where c2: "copy_plaintext_to_buffer ?k ?s = (r2, f, v')"
    by (cases "copy_plaintext_to_buffer ?k ?s") auto
  have "fst (handle_conn [SelectReady True False] ?conn ?s) = Continue"
    by (simp add: run_defs hi_engine_def hi_os_def)
  with h1 have x: "x = Continue" by simp
  have "(case handle_conn [SelectReady True False] ?conn ?t
         of (x, st, c, s) \<Rightarrow> (x, data_len c)) = (Cleanup 1, 2)"
    by (simp add: run_defs hi_engine_def hi_os_def)
  with h2 have y: "y = Cleanup 1" "data_len d = 2" by simp_all
  have "fst (copy_plaintext_to_buffer ?k hi_os) = Some CRUSTLS_DEMO_OK"
    by (simp add: run_defs hi_os_def)
  with c1 have r: "r = Some CRUSTLS_DEMO_OK" by simp
  have "fst (copy_plaintext_to_buffer ?k ?s) = Some CRUSTLS_DEMO_OK"
    by (simp add: run_defs hi_os_def)
  with c2 have r2: "r2 = Some CRUSTLS_DEMO_OK" by simp
  have st0: "stream ?conn = [104, 105]" and st1: "stream ?k = [104, 105]"
    by (simp_all add: stream_def accumulated_def new_conn_def hi_engine_def idle_engine_def)
  note th = sink_matters_only_by_failing
    [where s = ?s and t = ?t and conn = ?conn and sels = "[SelectReady True False]"
       and x = x and st = st and c = c and s' = s' and y = y and ?st2.0 = st2 and d = d
       and t' = t' and u = hi_os and v = ?s and k = ?k and r = r and e = e and u' = u'
       and ?r2.0 = r2 and f = f and v' = v']
  from th fr ok h1 h2 x y have a: "choked ?t t' \<and> stream d = stream ?conn" by auto
  from th fr2 ok2 c1 c2 r r2 have b: "f = e \<and> frame v' = frame u' \<and> stream e = stream ?k" by auto
  from fr ok h1 h2 x y a st0 fr2 ok2 c1 c2 r r2 b st1 show ?thesis by (intro exI) auto
qed

text \<open>
  C8 as stated fails: with a failing write on standard output (and nothing else changed)
  the drain step returns \<open>CRUSTLS_DEMO_ERROR\<close> instead of \<open>CRUSTLS_DEMO_OK\<close>, and the
  connection, which otherwise goes on, is ended and its socket closed. The two bytes have
  been appended to the buffer all the same.
\<close>

theorem sink_failure_terminates:
  "frame (hi_os\<lparr>stdout_wr := [WrFail EIO]\<rparr>) = frame hi_os
   \<and> fst (handle_conn [SelectReady True False] (new_conn 4 hi_engine) hi_os) = Continue
   \<and> (case handle_conn [SelectReady True False] (new_conn 4 hi_engine)
             (hi_os\<lparr>stdout_wr := [WrFail EIO]\<rparr>)
      of (x, st, c, s) \<Rightarrow> (x, data_len c, closed s)) = (Cleanup 1, 2, [4])
   \<and> fst (copy_plaintext_to_buffer (new_conn 4 (idle_engine\<lparr>plain := [104, 105]\<rparr>)) hi_os)
       = Some CRUSTLS_DEMO_OK
   \<and> fst (copy_plaintext_to_buffer (new_conn 4 (idle_engine\<lparr>plain := [104, 105]\<rparr>))
             (hi_os\<lparr>stdout_wr := [WrFail EIO]\<rparr>))
       = Some CRUSTLS_DEMO_ERROR"
  by (simp add: run_defs hi_engine_def hi_os_def frame_def)

subsection \<open>Lifetime of socket, engine and accumulator\<close>

lemma handle_conn_closes:
  assumes "handle_conn sels conn s = (Cleanup r, st, c, s')" and "0 < fd conn"
  shows "fd conn \<in> set (closed s')"
  using assms
  by (auto simp: handle_conn_def Let_def split: prod.splits ctl.splits if_splits)

lemma main_loop_served:
  assumes "list_all served arrivals"
  shows "\<exists>new. main_loop arrivals srv =
           (Waiting, srv\<lparr>live := new @ live srv,
                         rconn_var := (if arrivals = [] then rconn_var srv
                                       else Some (made srv + length arrivals - 1)),
                         made := made srv + length arrivals,
                         ret_var := (if arrivals = [] then ret_var srv else 0)\<rparr>)
         \<and> set new = (\<Union>i \<in> {made srv ..< made srv + length arrivals}. {Engine i, Accumulator i})"
  using assms
proof (induction arrivals arbitrary: srv)
  case Nil
  show ?case by simp
next
  case (Cons a arrivals)
  from Cons.prems have sa: "served a" and rest: "list_all served arrivals" by simp_all
  let ?fd = "accept_result a"
  let ?k = "made srv"
  let ?srv2 = "srv\<lparr>live := Accumulator ?k # Engine ?k # Socket ?fd # live srv,
                    rconn_var := Some ?k, made := Suc ?k, ret_var := 0\<rparr>"
  let ?srv3 = "srv\<lparr>live := Accumulator ?k # Engine ?k # live srv,
                    rconn_var := Some ?k, made := Suc ?k, ret_var := 0\<rparr>"
  obtain x st c s' where
    h: "handle_conn (selects a) (new_conn ?fd (new_engine a)) (environment a) = (x, st, c, s')"
    by (cases "handle_conn (selects a) (new_conn ?fd (new_engine a)) (environment a)") auto
  with sa obtain r where x: "x = Cleanup r" by (cases x) (auto simp: served_def)
  from sa have pos: "0 < fd (new_conn ?fd (new_engine a))" by (simp add: served_def new_conn_def)
  from handle_conn_closes [OF h [unfolded x] pos] have cl: "?fd \<in> set (closed s')"
    by (simp add: new_conn_def)
  have step: "main_loop (a # arrivals) srv = main_loop arrivals ?srv3"
    using sa h x cl by (cases srv) (simp add: served_def Let_def)
  from Cons.IH [OF rest, of ?srv3] obtain new where
    ml: "main_loop arrivals ?srv3 =
           (Waiting, ?srv3\<lparr>live := new @ live ?srv3,
                         rconn_var := (if arrivals = [] then rconn_var ?srv3
                                       else Some (made ?srv3 + length arrivals - 1)),
                         made := made ?srv3 + length arrivals,
                         ret_var := (if arrivals = [] then ret_var ?srv3 else 0)\<rparr>)"
    and new: "set new = (\<Union>i \<in> {made ?srv3 ..< made ?srv3 + length arrivals}. {Engine i, Accumulator i})"
    by blast
  let ?new = "new @ [Accumulator ?k, Engine ?k]"
  have "{?k ..< ?k + length (a # arrivals)} = insert ?k {Suc ?k ..< Suc ?k + length arrivals}"
    by auto
  then have "set ?new = (\<Union>i \<in> {?k ..< ?k + length (a # arrivals)}. {Engine i, Accumulator i})"
    using new by auto
  moreover have "main_loop (a # arrivals) srv =
           (Waiting, srv\<lparr>live := ?new @ live srv,
                         rconn_var := Some (made srv + length (a # arrivals) - 1),
                         made := made srv + length (a # arrivals),
                         ret_var := 0\<rparr>)"
    unfolding step ml by (cases srv; cases arrivals) simp_all
  ultimately show ?case by (intro exI [of _ ?new]) simp
qed

text \<open>
  What the accept loop leaves behind. After any number of served connections, whichever
  way each of them ended (clean close-notify, peer EOF, fatal error), \<open>main\<close> is waiting
  for the next one, every socket has been closed, and the engine and the accumulator of
  every one of the connections are still allocated: no exit path of \<open>handle_conn\<close> and
  no statement of the accept loop releases them.
\<close>

lemma engines_outlive_sockets:
  assumes "list_all served arrivals"
  shows "fst (main_loop arrivals main_start) = Waiting
         \<and> set (live (snd (main_loop arrivals main_start)))
             = (\<Union>i \<in> {..< length arrivals}. {Engine i, Accumulator i})"
proof -
  from main_loop_served [OF assms, of main_start] obtain new where
    "main_loop arrivals main_start =
       (Waiting, main_start\<lparr>live := new @ live main_start,
                         rconn_var := (if arrivals = [] then rconn_var main_start
                                       else Some (made main_start + length arrivals - 1)),
                         made := made main_start + length arrivals,
                         ret_var := (if arrivals = [] then ret_var main_start else 0)\<rparr>)"
    and "set new = (\<Union>i \<in> {made main_start ..< made main_start + length arrivals}.
                      {Engine i, Accumulator i})"
    by blast
  then show ?thesis by (simp add: main_start_def lessThan_atLeast0)
qed

lemma three_served: "list_all served [close_notify_arrival, eof_arrival, failing_arrival]"
  by (simp add: served_def close_notify_arrival_def eof_arrival_def failing_arrival_def
        closing_at_once_engine_def run_defs)

lemma engines_outlive_sockets_served:
  "list_all served [close_notify_arrival, eof_arrival, failing_arrival]
   \<and> fst (main_loop [close_notify_arrival, eof_arrival, failing_arrival] main_start) = Waiting
   \<and> set (live (snd (main_loop [close_notify_arrival, eof_arrival, failing_arrival] main_start)))
       = {Engine 0, Accumulator 0, Engine 1, Accumulator 1, Engine 2, Accumulator 2}"
proof -
  have "(\<Union>i \<in> {..< length [close_notify_arrival, eof_arrival, failing_arrival]}.
           {Engine i, Accumulator i})
        = {Engine 0, Accumulator 0, Engine 1, Accumulator 1, Engine 2, Accumulator 2}"
    by (auto simp: lessThan_Suc numeral_3_eq_3 numeral_2_eq_2)
  with engines_outlive_sockets [OF three_served] three_served show ?thesis by simp
qed

text \<open>
  C9, the code at the failing input. A connection ends by close-notify: \<open>handle_conn\<close>
  closes its socket, and its engine and accumulator are still allocated while \<open>main\<close>
  waits in accept. A second connection is served and accept then fails: at its own
  cleanup \<open>main\<close> calls \<open>rustls_connection_free(rconn)\<close> once, which frees the engine of
  the last connection; the engine of the first and both accumulators are never released.
  And a socket whose descriptor is 0 is not closed at all.
\<close>

theorem engine_left_after_close:
  "(case handle_conn (selects close_notify_arrival)
           (new_conn 4 (new_engine close_notify_arrival)) (environment close_notify_arrival)
    of (x, st, c, s) \<Rightarrow> (x, closed s)) = (Cleanup 0, [4])
   \<and> main_loop [close_notify_arrival] main_start
       = (Waiting, \<lparr>live = [Accumulator 0, Engine 0], rconn_var = Some 0, made = 1, ret_var = 0\<rparr>)
   \<and> main_loop [close_notify_arrival, eof_arrival, refused_arrival] main_start
       = (Exit 0, \<lparr>live = [Accumulator 1, Accumulator 0, Engine 0], rconn_var = Some 1,
                   made = 2, ret_var = 0\<rparr>)
   \<and> (case handle_conn [SelectFail 9] (new_conn 0 idle_engine) quiet_os
      of (x, st, c, s) \<Rightarrow> (x, closed s)) = (Cleanup 1, [])"
  by (simp add: main_start_def main_cleanup_def close_notify_arrival_def eof_arrival_def
        refused_arrival_def closing_at_once_engine_def run_defs)

end
